theory Spec2Isabelle
  imports Main
begin

section \<open>Data model\<close>

text \<open>
  The two tables of \<^verbatim>\<open>interface Database\<close> (graphql-node-review.ts, lines 8-23).
  A \<^verbatim>\<open>Date\<close> is its time value, the number of milliseconds since the epoch, or it is an
  invalid date (time value \<^verbatim>\<open>NaN\<close>), as a driver can hand one back. Column names carry a
  prefix (\<open>u_\<close> for \<^verbatim>\<open>users\<close>, \<open>s_\<close> for \<^verbatim>\<open>settings\<close>), since \<^verbatim>\<open>id\<close> is in both
  tables. A nullable column is an \<open>option\<close>.
\<close>

datatype date = Date nat | Invalid_Date

datatype role = ADMIN | MEMBER

record users_row =
  u_id :: string
  u_email :: string
  u_role :: role
  u_created_at :: date

record settings_row =
  s_id :: string
  s_user_id :: string
  s_key :: string
  s_value :: string
  s_updated_at :: date
  s_updated_by :: "string option"

text \<open>
  What the resolvers return for a user: \<^verbatim>\<open>{ ...u, createdAt: u.created_at.toISOString() }\<close>,
  every column of the row and one more field.
\<close>

record user_gql = users_row +
  createdAt :: string

text \<open>The element type of the array \<^verbatim>\<open>updated\<close> (lines 119-125).\<close>

record updated_entry =
  e_id :: string
  e_key :: string
  e_value :: string
  e_updatedAt :: string
  e_updatedById :: "string option"

text \<open>The object returned at lines 177-181.\<close>

record settings_payload =
  p_success :: bool
  p_user :: user_gql
  p_settings :: "updated_entry list"

text \<open>The object given to \<^verbatim>\<open>JSON.stringify\<close> at lines 163-169.\<close>

record audit_event =
  ev_eventType :: string
  ev_userId :: string
  ev_actorId :: "string option"
  ev_at :: string
  ev_changes :: "(string \<times> string) list"

text \<open>The resolver's third argument, both fields optional.\<close>

record ctx =
  ctx_userId :: "string option"
  ctx_role :: "role option"

text \<open>The two fields the code reads of the \<^verbatim>\<open>Response\<close> of \<^verbatim>\<open>fetch\<close>.\<close>

record response =
  r_ok :: bool
  r_status :: nat

text \<open>
  Whatever can be thrown: \<^verbatim>\<open>new Error(msg)\<close> of the code itself, a query of the
  database that rejects, \<^verbatim>\<open>executeTakeFirstOrThrow\<close> finding no row, \<^verbatim>\<open>fetch\<close>
  rejecting, the \<^verbatim>\<open>error\<close> object of an Apollo query result, and the \<^verbatim>\<open>RangeError\<close> of
  \<^verbatim>\<open>toISOString\<close> on an invalid date.
\<close>

datatype exn =
  Error string
  | DbError
  | NoResultError
  | FetchError
  | ApolloError string
  | RangeError

section \<open>The environment\<close>

text \<open>
  Every interaction of a resolver with the outside is recorded, oldest first, in a trace.
\<close>

datatype effect =
  DbSelectUser string
  | DbCountSettings string
  | DbUpsert settings_row
  | NewDate
  | RandomUUID
  | HttpPost string audit_event

text \<open>
  The world a resolver runs in: the two tables, the trace, and what the outside answers
  at each step (the step of an interaction is the length of the trace when it is made):
  whether a query of the database fails there, what \<^verbatim>\<open>new Date()\<close> and
  \<^verbatim>\<open>crypto.randomUUID()\<close> give there, and how the audit service answers a request made
  there (\<^verbatim>\<open>new Date()\<close> is always a valid date, so the clock gives time values). How the
  runtime prints a time value in \<^verbatim>\<open>Date.prototype.toISOString\<close> is a parameter.
\<close>

record world =
  users_tbl :: "users_row list"
  settings_tbl :: "settings_row list"
  trace :: "effect list"
  db_fault :: "nat \<Rightarrow> bool"
  clock :: "nat \<Rightarrow> nat"
  uuid :: "nat \<Rightarrow> string"
  audit_service :: "nat \<Rightarrow> exn + response"
  toISOString :: "nat \<Rightarrow> string"

definition step :: "world \<Rightarrow> nat" where
  "step w = length (trace w)"

definition emit :: "effect \<Rightarrow> world \<Rightarrow> world" where
  "emit e w = w\<lparr>trace := trace w @ [e]\<rparr>"

text \<open>
  \<^verbatim>\<open>db.selectFrom("users").selectAll().where("id", "=", id).executeTakeFirst()\<close>:
  the first row with that id, or \<^verbatim>\<open>undefined\<close>.
\<close>

definition db_select_user :: "world \<Rightarrow> string \<Rightarrow> (exn + users_row option) \<times> world" where
  "db_select_user w i =
     (if db_fault w (step w) then Inl DbError
      else Inr (find (\<lambda>u. u_id u = i) (users_tbl w)),
      emit (DbSelectUser i) w)"

definition new_Date :: "world \<Rightarrow> date \<times> world" where
  "new_Date w = (Date (clock w (step w)), emit NewDate w)"

text \<open>
  \<^verbatim>\<open>d.toISOString()\<close>: the time value printed, and \<^verbatim>\<open>RangeError\<close> thrown on an invalid date.
\<close>

definition Date_toISOString :: "world \<Rightarrow> date \<Rightarrow> exn + string" where
  "Date_toISOString w d =
     (case d of Date t \<Rightarrow> Inr (toISOString w t) | Invalid_Date \<Rightarrow> Inl RangeError)"

definition randomUUID :: "world \<Rightarrow> string \<times> world" where
  "randomUUID w = (uuid w (step w), emit RandomUUID w)"

definition fetch :: "world \<Rightarrow> string \<Rightarrow> audit_event \<Rightarrow> (exn + response) \<times> world" where
  "fetch w url body = (audit_service w (step w), emit (HttpPost url body) w)"

text \<open>
  \<^verbatim>\<open>insertInto("settings").values(row).onConflict(oc => oc.columns(["user_id", "key"])
  .doUpdateSet({ value, updated_at: now })).returning(...)\<close> on a table: with no row of
  that \<^verbatim>\<open>(user_id, key)\<close> the new row is inserted; otherwise the rows in conflict get
  the new \<^verbatim>\<open>value\<close> and \<^verbatim>\<open>updated_at\<close>, and nothing else of them changes. The second
  component is the rows returned.
\<close>

definition conflicts :: "settings_row \<Rightarrow> settings_row \<Rightarrow> bool" where
  "conflicts new r = (s_user_id r = s_user_id new \<and> s_key r = s_key new)"

definition doUpdateSet :: "settings_row \<Rightarrow> settings_row \<Rightarrow> settings_row" where
  "doUpdateSet new r =
     (if conflicts new r then r\<lparr>s_value := s_value new, s_updated_at := s_updated_at new\<rparr>
      else r)"

definition insert_onConflict ::
  "settings_row list \<Rightarrow> settings_row \<Rightarrow> settings_row list \<times> settings_row list" where
  "insert_onConflict tbl new =
     (if filter (conflicts new) tbl = [] then (tbl @ [new], [new])
      else (map (doUpdateSet new) tbl, map (doUpdateSet new) (filter (conflicts new) tbl)))"

text \<open>
  The query run with \<^verbatim>\<open>executeTakeFirstOrThrow\<close>: the first row returned, and
  \<^verbatim>\<open>NoResultError\<close> when there is none. A query that fails writes nothing.
\<close>

definition db_upsert :: "world \<Rightarrow> settings_row \<Rightarrow> (exn + settings_row) \<times> world" where
  "db_upsert w new =
     (let w1 = emit (DbUpsert new) w in
      if db_fault w (step w) then (Inl DbError, w1)
      else (case insert_onConflict (settings_tbl w) new of
              (tbl, returned) \<Rightarrow>
                (case returned of
                   [] \<Rightarrow> (Inl NoResultError, w1\<lparr>settings_tbl := tbl\<rparr>)
                 | r # _ \<Rightarrow> (Inr r, w1\<lparr>settings_tbl := tbl\<rparr>))))"

text \<open>
  \<^verbatim>\<open>select(db.fn.count("id")).where("user_id", "=", id)\<close>: the number of settings rows
  of a user.
\<close>

definition db_count_settings :: "world \<Rightarrow> string \<Rightarrow> (exn + nat) \<times> world" where
  "db_count_settings w i =
     (if db_fault w (step w) then Inl DbError
      else Inr (length (filter (\<lambda>r. s_user_id r = i) (settings_tbl w))),
      emit (DbCountSettings i) w)"

section \<open>The resolvers\<close>

text \<open>
  \<^verbatim>\<open>{ ...u, createdAt: u.created_at.toISOString() }\<close>, which throws when \<^verbatim>\<open>created_at\<close> is an
  invalid date.
\<close>

definition with_createdAt :: "world \<Rightarrow> users_row \<Rightarrow> exn + user_gql" where
  "with_createdAt w u =
     (case Date_toISOString w (u_created_at u) of
        Inl e \<Rightarrow> Inl e
      | Inr printed \<Rightarrow>
          Inr \<lparr>u_id = u_id u, u_email = u_email u, u_role = u_role u,
               u_created_at = u_created_at u, createdAt = printed\<rparr>)"

text \<open>\<^verbatim>\<open>Query.user\<close> (lines 62-65).\<close>

definition Query_user :: "world \<Rightarrow> string \<Rightarrow> (exn + user_gql option) \<times> world" where
  "Query_user w i =
     (case db_select_user w i of
        (Inl e, w1) \<Rightarrow> (Inl e, w1)
      | (Inr None, w1) \<Rightarrow> (Inr None, w1)
      | (Inr (Some u), w1) \<Rightarrow>
          (case with_createdAt w1 u of
             Inl e \<Rightarrow> (Inl e, w1)
           | Inr g \<Rightarrow> (Inr (Some g), w1)))"

text \<open>
  \<^verbatim>\<open>Query.users\<close> (lines 67-75). \<^verbatim>\<open>ids.map\<close> starts one query per id, in the order of
  \<^verbatim>\<open>ids\<close>; \<^verbatim>\<open>Promise.all\<close> gives their results in that order, and rejects when one of
  them rejects. \<^verbatim>\<open>rows.map\<close> of line 74 then goes through the rows from the first, and
  ends at the first row whose \<^verbatim>\<open>toISOString\<close> throws.
\<close>

fun select_users :: "world \<Rightarrow> string list \<Rightarrow> (exn + users_row option) list \<times> world" where
  "select_users w [] = ([], w)"
| "select_users w (i # ids) =
     (case db_select_user w i of
        (r, w1) \<Rightarrow> (case select_users w1 ids of (rs, w2) \<Rightarrow> (r # rs, w2)))"

fun Promise_all :: "(exn + 'a) list \<Rightarrow> exn + 'a list" where
  "Promise_all [] = Inr []"
| "Promise_all (Inl e # rs) = Inl e"
| "Promise_all (Inr x # rs) =
     (case Promise_all rs of Inl e \<Rightarrow> Inl e | Inr xs \<Rightarrow> Inr (x # xs))"

fun map_rows :: "world \<Rightarrow> users_row option list \<Rightarrow> exn + user_gql option list" where
  "map_rows w [] = Inr []"
| "map_rows w (None # rows) =
     (case map_rows w rows of Inl e \<Rightarrow> Inl e | Inr gs \<Rightarrow> Inr (None # gs))"
| "map_rows w (Some u # rows) =
     (case with_createdAt w u of
        Inl e \<Rightarrow> Inl e
      | Inr g \<Rightarrow> (case map_rows w rows of Inl e \<Rightarrow> Inl e | Inr gs \<Rightarrow> Inr (Some g # gs)))"

definition Query_users :: "world \<Rightarrow> string list \<Rightarrow> (exn + user_gql option list) \<times> world" where
  "Query_users w ids =
     (case select_users w ids of
        (results, w1) \<Rightarrow>
          (case Promise_all results of
             Inl e \<Rightarrow> (Inl e, w1)
           | Inr rows \<Rightarrow> (map_rows w1 rows, w1)))"

text \<open>\<^verbatim>\<open>User.settingsCount\<close> (lines 79-87).\<close>

definition User_settingsCount :: "world \<Rightarrow> string \<Rightarrow> (exn + nat) \<times> world" where
  "User_settingsCount w i = db_count_settings w i"

text \<open>The decimal digits of a number, as a template literal prints it.\<close>

fun string_of_nat :: "nat \<Rightarrow> string" where
  "string_of_nat n =
     (if n < 10 then [''0123456789'' ! n]
      else string_of_nat (n div 10) @ [''0123456789'' ! (n mod 10)])"

declare string_of_nat.simps [simp del]

text \<open>
  The loop of lines 127-154 over the rest of \<^verbatim>\<open>settings\<close>, with \<^verbatim>\<open>updated\<close> as it is so
  far. The id is drawn before the query is sent, also when the row is then updated and
  the id not used. A query that throws ends the loop and the resolver, and so does
  \<^verbatim>\<open>r.updated_at.toISOString()\<close> of line 151 when it throws.
\<close>

fun upsert_loop ::
  "world \<Rightarrow> string \<Rightarrow> ctx \<Rightarrow> date \<Rightarrow> updated_entry list \<Rightarrow> (string \<times> string) list
   \<Rightarrow> (exn + updated_entry list) \<times> world" where
  "upsert_loop w userId c now updated [] = (Inr updated, w)"
| "upsert_loop w userId c now updated ((k, v) # rest) =
     (case randomUUID w of
        (new_id, w1) \<Rightarrow>
          (case db_upsert w1
                  \<lparr>s_id = new_id, s_user_id = userId, s_key = k, s_value = v,
                   s_updated_at = now, s_updated_by = ctx_userId c\<rparr> of
             (Inl e, w2) \<Rightarrow> (Inl e, w2)
           | (Inr r, w2) \<Rightarrow>
               (case Date_toISOString w2 (s_updated_at r) of
                  Inl e \<Rightarrow> (Inl e, w2)
                | Inr printed \<Rightarrow>
                    upsert_loop w2 userId c now
                      (updated @
                       [\<lparr>e_id = s_id r, e_key = s_key r, e_value = s_value r,
                         e_updatedAt = printed, e_updatedById = s_updated_by r\<rparr>])
                      rest)))"

text \<open>
  \<^verbatim>\<open>Mutation.updateSettings\<close> (lines 104-182). The body of the request is built, with
  \<^verbatim>\<open>now.toISOString()\<close>, before \<^verbatim>\<open>fetch\<close> is called; the payload is built, with
  \<^verbatim>\<open>u.created_at.toISOString()\<close>, after the response has been found ok.
\<close>

definition Mutation_updateSettings ::
  "world \<Rightarrow> string \<Rightarrow> (string \<times> string) list \<Rightarrow> ctx \<Rightarrow> (exn + settings_payload) \<times> world" where
  "Mutation_updateSettings w userId settings c =
     (case db_select_user w userId of
        (Inl e, w1) \<Rightarrow> (Inl e, w1)
      | (Inr None, w1) \<Rightarrow> (Inl (Error ''User not found''), w1)
      | (Inr (Some u), w1) \<Rightarrow>
          (case new_Date w1 of
             (now, w2) \<Rightarrow>
               (case upsert_loop w2 userId c now [] settings of
                  (Inl e, w3) \<Rightarrow> (Inl e, w3)
                | (Inr updated, w3) \<Rightarrow>
                    (case Date_toISOString w3 now of
                       Inl e \<Rightarrow> (Inl e, w3)
                     | Inr at \<Rightarrow>
                         (case fetch w3 ''http://audit-service.internal/events''
                                 \<lparr>ev_eventType = ''USER_SETTINGS_UPDATED'', ev_userId = userId,
                                  ev_actorId = ctx_userId c, ev_at = at,
                                  ev_changes = map (\<lambda>s. (e_key s, e_value s)) updated\<rparr> of
                            (Inl e, w4) \<Rightarrow> (Inl e, w4)
                          | (Inr auditResponse, w4) \<Rightarrow>
                              if \<not> r_ok auditResponse
                              then (Inl (Error (''Audit service failed: '' @
                                                string_of_nat (r_status auditResponse))), w4)
                              else (case with_createdAt w4 u of
                                      Inl e \<Rightarrow> (Inl e, w4)
                                    | Inr user \<Rightarrow>
                                        (Inr \<lparr>p_success = True, p_user = user,
                                              p_settings = updated\<rparr>, w4)))))))"

section \<open>The form-field validator\<close>

text \<open>
  excercise-1.ts. The one field the code reads of what the Apollo query returns, and the
  query itself, a parameter: \<open>Inl\<close> when the call throws, \<open>Inr\<close> its result otherwise.
\<close>

record query_result =
  qr_error :: "exn option"

text \<open>
  \<^verbatim>\<open>schemaValidator\<close> (lines 5-21). The inner \<^verbatim>\<open>case\<close> is the body of the \<^verbatim>\<open>try\<close>, where
  \<^verbatim>\<open>throw error\<close> stands; the outer one is the \<^verbatim>\<open>catch\<close>, which binds nothing of what was
  thrown.
\<close>

definition schemaValidator :: "(string \<Rightarrow> exn + query_result) \<Rightarrow> string \<Rightarrow> exn + unit" where
  "schemaValidator validator val =
     (if val = [] then Inl (Error ''Schema is required'')
      else (case (case validator val of
                    Inl thrown \<Rightarrow> Inl thrown
                  | Inr res \<Rightarrow> (case qr_error res of Some error \<Rightarrow> Inl error | None \<Rightarrow> Inr ()))
            of Inl _ \<Rightarrow> Inl (Error ''Invalid schema'')
             | Inr done \<Rightarrow> Inr done))"

section \<open>Reading a trace\<close>

text \<open>The events posted, the pairs upserted and the number of clock readings of a trace.\<close>

fun notifications :: "effect list \<Rightarrow> audit_event list" where
  "notifications [] = []"
| "notifications (HttpPost url ev # es) = ev # notifications es"
| "notifications (e # es) = notifications es"

fun upserts :: "effect list \<Rightarrow> (string \<times> string) list" where
  "upserts [] = []"
| "upserts (DbUpsert new # es) = (s_key new, s_value new) # upserts es"
| "upserts (e # es) = upserts es"

fun clock_reads :: "effect list \<Rightarrow> nat" where
  "clock_reads [] = 0"
| "clock_reads (NewDate # es) = Suc (clock_reads es)"
| "clock_reads (e # es) = clock_reads es"

text \<open>The row that one turn of the loop sends to the database.\<close>

definition new_row :: "world \<Rightarrow> string \<Rightarrow> ctx \<Rightarrow> date \<Rightarrow> string \<Rightarrow> string \<Rightarrow> settings_row" where
  "new_row w userId c now k v =
     \<lparr>s_id = uuid w (step w), s_user_id = userId, s_key = k, s_value = v,
      s_updated_at = now, s_updated_by = ctx_userId c\<rparr>"

section \<open>Example worlds\<close>

text \<open>
  A world with one user and one setting of hers, where no query fails and the audit
  service accepts every event; the same world with the audit service answering 503; the
  same world with the user's \<^verbatim>\<open>created_at\<close> an invalid date; and a caller other than that
  user.
\<close>

definition world0 :: world where
  "world0 =
     \<lparr>users_tbl = [\<lparr>u_id = ''u1'', u_email = ''u1@example.org'', u_role = MEMBER, u_created_at = Date 5\<rparr>],
      settings_tbl =
        [\<lparr>s_id = ''s1'', s_user_id = ''u1'', s_key = ''theme'', s_value = ''light'',
          s_updated_at = Date 7, s_updated_by = Some ''u1''\<rparr>],
      trace = [],
      db_fault = (\<lambda>n. False),
      clock = (\<lambda>n. 100 + n),
      uuid = (\<lambda>n. ''id-'' @ string_of_nat n),
      audit_service = (\<lambda>n. Inr \<lparr>r_ok = True, r_status = 200\<rparr>),
      toISOString = string_of_nat\<rparr>"

definition world_audit_down :: world where
  "world_audit_down = world0\<lparr>audit_service := (\<lambda>n. Inr \<lparr>r_ok = False, r_status = 503\<rparr>)\<rparr>"

definition world_bad_date :: world where
  "world_bad_date =
     world0\<lparr>users_tbl := [\<lparr>u_id = ''u1'', u_email = ''u1@example.org'', u_role = MEMBER,
                               u_created_at = Invalid_Date\<rparr>]\<rparr>"

definition ctx0 :: ctx where
  "ctx0 = \<lparr>ctx_userId = Some ''admin'', ctx_role = Some ADMIN\<rparr>"

text \<open>A remote validation that returns, without throwing, a result with an \<^verbatim>\<open>error\<close>.\<close>

definition validator_rejecting :: "string \<Rightarrow> exn + query_result" where
  "validator_rejecting v = Inr \<lparr>qr_error = Some (ApolloError ''mismatched input'')\<rparr>"

section \<open>One upsert\<close>

lemma notifications_append: "notifications (xs @ ys) = notifications xs @ notifications ys"
  by (induction xs rule: notifications.induct) simp_all

lemma upserts_append: "upserts (xs @ ys) = upserts xs @ upserts ys"
  by (induction xs rule: upserts.induct) simp_all

lemma clock_reads_append: "clock_reads (xs @ ys) = clock_reads xs + clock_reads ys"
  by (induction xs rule: clock_reads.induct) simp_all

lemma emit_simps:
  "trace (emit e w) = trace w @ [e]"
  "users_tbl (emit e w) = users_tbl w"
  "settings_tbl (emit e w) = settings_tbl w"
  "db_fault (emit e w) = db_fault w"
  "clock (emit e w) = clock w"
  "uuid (emit e w) = uuid w"
  "audit_service (emit e w) = audit_service w"
  "toISOString (emit e w) = toISOString w"
  "step (emit e w) = Suc (step w)"
  by (simp_all add: emit_def step_def)

text \<open>The table after one upsert.\<close>

lemma insert_onConflict_rows:
  assumes "row \<in> set (fst (insert_onConflict tbl new))"
  shows "(conflicts new row \<and> s_value row = s_value new \<and> s_updated_at row = s_updated_at new)
         \<or> (\<not> conflicts new row \<and> row \<in> set tbl)"
proof (cases "filter (conflicts new) tbl = []")
  case True
  with assms have "row = new \<or> row \<in> set tbl"
    by (auto simp: insert_onConflict_def)
  moreover have "\<not> conflicts new x" if "x \<in> set tbl" for x
    using True that by (auto simp: filter_empty_conv)
  moreover have "conflicts new new"
    by (simp add: conflicts_def)
  ultimately show ?thesis by blast
next
  case False
  with assms obtain r where r: "r \<in> set tbl" "row = doUpdateSet new r"
    by (auto simp: insert_onConflict_def)
  show ?thesis
  proof (cases "conflicts new r")
    case True
    then show ?thesis using r by (simp add: doUpdateSet_def conflicts_def)
  next
    case False
    then show ?thesis using r by (simp add: doUpdateSet_def)
  qed
qed

lemma insert_onConflict_keeps:
  assumes "r \<in> set tbl"
  shows "\<exists>row \<in> set (fst (insert_onConflict tbl new)).
           s_user_id row = s_user_id r \<and> s_key row = s_key r"
proof (cases "filter (conflicts new) tbl = []")
  case True
  then show ?thesis using assms by (auto simp: insert_onConflict_def)
next
  case False
  have "doUpdateSet new r \<in> set (fst (insert_onConflict tbl new))"
    using False assms by (simp add: insert_onConflict_def)
  moreover have "s_user_id (doUpdateSet new r) = s_user_id r \<and> s_key (doUpdateSet new r) = s_key r"
    by (simp add: doUpdateSet_def)
  ultimately show ?thesis by blast
qed

lemma insert_onConflict_has:
  "\<exists>row \<in> set (fst (insert_onConflict tbl new)).
     s_user_id row = s_user_id new \<and> s_key row = s_key new"
proof (cases "filter (conflicts new) tbl = []")
  case True
  then show ?thesis by (simp add: insert_onConflict_def)
next
  case False
  then obtain r where r: "r \<in> set tbl" "conflicts new r"
    by (auto simp: filter_empty_conv)
  from insert_onConflict_keeps [OF r(1), of new] r(2) show ?thesis
    by (auto simp: conflicts_def)
qed

lemma insert_onConflict_returned:
  assumes "snd (insert_onConflict tbl new) = r # rs"
  shows "s_user_id r = s_user_id new \<and> s_key r = s_key new \<and> s_value r = s_value new
         \<and> s_updated_at r = s_updated_at new"
proof (cases "filter (conflicts new) tbl = []")
  case True
  then show ?thesis using assms by (simp add: insert_onConflict_def)
next
  case False
  with assms have "r \<in> set (map (doUpdateSet new) (filter (conflicts new) tbl))"
    by (simp add: insert_onConflict_def)
  then obtain x where "conflicts new x" "r = doUpdateSet new x"
    by auto
  then show ?thesis by (simp add: doUpdateSet_def conflicts_def)
qed

lemma insert_onConflict_returns: "snd (insert_onConflict tbl new) \<noteq> []"
  by (simp add: insert_onConflict_def)

lemma db_upsert_eq:
  "db_upsert w new =
     (if db_fault w (step w) then (Inl DbError, emit (DbUpsert new) w)
      else (Inr (hd (snd (insert_onConflict (settings_tbl w) new))),
            (emit (DbUpsert new) w)\<lparr>settings_tbl := fst (insert_onConflict (settings_tbl w) new)\<rparr>))"
proof -
  obtain r rs where "snd (insert_onConflict (settings_tbl w) new) = r # rs"
    using insert_onConflict_returns [of "settings_tbl w" new] by (auto simp: neq_Nil_conv)
  then show ?thesis
    by (cases "insert_onConflict (settings_tbl w) new") (simp add: db_upsert_def Let_def)
qed

lemma new_row_simps:
  "s_user_id (new_row w userId c now k v) = userId"
  "s_key (new_row w userId c now k v) = k"
  "s_value (new_row w userId c now k v) = v"
  "s_updated_at (new_row w userId c now k v) = now"
  by (simp_all add: new_row_def)

lemma upsert_loop_Cons:
  "upsert_loop w userId c (Date now) updated ((k, v) # rest) =
     (if db_fault w (Suc (step w))
      then (Inl DbError, emit (DbUpsert (new_row w userId c (Date now) k v)) (emit RandomUUID w))
      else upsert_loop
             ((emit (DbUpsert (new_row w userId c (Date now) k v)) (emit RandomUUID w))
                \<lparr>settings_tbl := fst (insert_onConflict (settings_tbl w) (new_row w userId c (Date now) k v))\<rparr>)
             userId c (Date now)
             (updated @
              [\<lparr>e_id = s_id (hd (snd (insert_onConflict (settings_tbl w) (new_row w userId c (Date now) k v)))),
                e_key = k, e_value = v, e_updatedAt = toISOString w now,
                e_updatedById =
                  s_updated_by (hd (snd (insert_onConflict (settings_tbl w) (new_row w userId c (Date now) k v))))\<rparr>])
             rest)"
proof -
  let ?new = "new_row w userId c (Date now) k v"
  obtain r rs where r: "snd (insert_onConflict (settings_tbl w) ?new) = r # rs"
    using insert_onConflict_returns [of "settings_tbl w" ?new] by (auto simp: neq_Nil_conv)
  from insert_onConflict_returned [OF r] have "s_key r = k" "s_value r = v" "s_updated_at r = Date now"
    by (simp_all add: new_row_simps)
  then show ?thesis
    using r by (simp add: randomUUID_def db_upsert_eq emit_simps new_row_def Date_toISOString_def)
qed

lemma upsert_loop_frame:
  "upsert_loop w userId c (Date now) updated ps = (res, w') \<Longrightarrow>
   users_tbl w' = users_tbl w \<and> db_fault w' = db_fault w \<and> clock w' = clock w \<and>
   uuid w' = uuid w \<and> audit_service w' = audit_service w \<and> toISOString w' = toISOString w"
proof (induction ps arbitrary: w updated)
  case Nil
  then show ?case by simp
next
  case (Cons p ps)
  obtain k v where p: "p = (k, v)" by (cases p)
  let ?new = "new_row w userId c (Date now) k v"
  show ?case
  proof (cases "db_fault w (Suc (step w))")
    case True
    with Cons.prems have "w' = emit (DbUpsert ?new) (emit RandomUUID w)"
      unfolding p upsert_loop_Cons by simp
    then show ?thesis by (simp add: emit_simps)
  next
    case False
    let ?w2 = "(emit (DbUpsert ?new) (emit RandomUUID w))
                 \<lparr>settings_tbl := fst (insert_onConflict (settings_tbl w) ?new)\<rparr>"
    from False Cons.prems obtain upd where "upsert_loop ?w2 userId c (Date now) upd ps = (res, w')"
      unfolding p upsert_loop_Cons by auto
    from Cons.IH [OF this] show ?thesis by (simp add: emit_simps)
  qed
qed

lemma upsert_loop_trace:
  "upsert_loop w userId c (Date now) updated ps = (res, w') \<Longrightarrow>
   \<exists>ext. trace w' = trace w @ ext \<and> notifications ext = [] \<and> clock_reads ext = 0 \<and>
         (\<forall>new. DbUpsert new \<in> set ext \<longrightarrow> s_updated_at new = Date now) \<and>
         (\<forall>us. res = Inr us \<longrightarrow> upserts ext = ps \<and> length ext = 2 * length ps)"
proof (induction ps arbitrary: w updated)
  case Nil
  then show ?case by auto
next
  case (Cons p ps)
  obtain k v where p: "p = (k, v)" by (cases p)
  let ?new = "new_row w userId c (Date now) k v"
  show ?case
  proof (cases "db_fault w (Suc (step w))")
    case True
    with Cons.prems have "trace w' = trace w @ [RandomUUID, DbUpsert ?new]" "res = Inl DbError"
      unfolding p upsert_loop_Cons by (auto simp: emit_simps)
    then show ?thesis by (auto simp: new_row_simps)
  next
    case False
    let ?w2 = "(emit (DbUpsert ?new) (emit RandomUUID w))
                 \<lparr>settings_tbl := fst (insert_onConflict (settings_tbl w) ?new)\<rparr>"
    from False Cons.prems obtain upd where "upsert_loop ?w2 userId c (Date now) upd ps = (res, w')"
      unfolding p upsert_loop_Cons by auto
    from Cons.IH [OF this] obtain ext where ext:
      "trace w' = trace ?w2 @ ext" "notifications ext = []" "clock_reads ext = 0"
      "\<forall>new. DbUpsert new \<in> set ext \<longrightarrow> s_updated_at new = Date now"
      "\<forall>us. res = Inr us \<longrightarrow> upserts ext = ps \<and> length ext = 2 * length ps"
      by blast
    have "trace w' = trace w @ ([RandomUUID, DbUpsert ?new] @ ext)"
      using ext(1) by (simp add: emit_simps)
    moreover have "notifications ([RandomUUID, DbUpsert ?new] @ ext) = []"
      using ext(2) by simp
    moreover have "clock_reads ([RandomUUID, DbUpsert ?new] @ ext) = 0"
      using ext(3) by simp
    moreover have "\<forall>n. DbUpsert n \<in> set ([RandomUUID, DbUpsert ?new] @ ext) \<longrightarrow> s_updated_at n = Date now"
      using ext(4) by (auto simp: new_row_simps)
    moreover have "\<forall>us. res = Inr us \<longrightarrow>
        upserts ([RandomUUID, DbUpsert ?new] @ ext) = p # ps \<and>
        length ([RandomUUID, DbUpsert ?new] @ ext) = 2 * length (p # ps)"
      using ext(5) by (auto simp: new_row_simps p)
    ultimately show ?thesis by blast
  qed
qed

lemma upsert_loop_result:
  "upsert_loop w userId c (Date now) updated ps = (Inr us, w') \<Longrightarrow>
   \<exists>new_entries. us = updated @ new_entries \<and>
      map (\<lambda>s. (e_key s, e_value s)) new_entries = ps \<and>
      (\<forall>s \<in> set new_entries. e_updatedAt s = toISOString w now)"
proof (induction ps arbitrary: w updated)
  case Nil
  then show ?case by simp
next
  case (Cons p ps)
  obtain k v where p: "p = (k, v)" by (cases p)
  let ?new = "new_row w userId c (Date now) k v"
  let ?w2 = "(emit (DbUpsert ?new) (emit RandomUUID w))
               \<lparr>settings_tbl := fst (insert_onConflict (settings_tbl w) ?new)\<rparr>"
  obtain entry where entry: "entry = \<lparr>e_id = s_id (hd (snd (insert_onConflict (settings_tbl w) ?new))),
       e_key = k, e_value = v, e_updatedAt = toISOString w now,
       e_updatedById = s_updated_by (hd (snd (insert_onConflict (settings_tbl w) ?new)))\<rparr>"
    by simp
  have run: "upsert_loop ?w2 userId c (Date now) (updated @ [entry]) ps = (Inr us, w')"
  proof (cases "db_fault w (Suc (step w))")
    case True
    with Cons.prems show ?thesis unfolding p upsert_loop_Cons by simp
  next
    case False
    with Cons.prems show ?thesis unfolding p upsert_loop_Cons entry by simp
  qed
  from Cons.IH [OF run] obtain es where es:
    "us = (updated @ [entry]) @ es" "map (\<lambda>s. (e_key s, e_value s)) es = ps"
    "\<forall>s \<in> set es. e_updatedAt s = toISOString ?w2 now"
    by (elim exE conjE)
  have "us = updated @ (entry # es)"
    using es(1) by simp
  moreover have "map (\<lambda>s. (e_key s, e_value s)) (entry # es) = p # ps"
    using es(2) by (simp add: p entry)
  moreover have "\<forall>s \<in> set (entry # es). e_updatedAt s = toISOString w now"
    using es(3) by (simp add: emit_simps entry)
  ultimately show ?case by (intro exI conjI)
qed

lemma upsert_loop_written:
  "upsert_loop w userId c (Date now) updated ps = (res, w') \<Longrightarrow> row \<in> set (settings_tbl w') \<Longrightarrow>
   row \<in> set (settings_tbl w) \<or> s_updated_at row = Date now"
proof (induction ps arbitrary: w updated)
  case Nil
  then show ?case by simp
next
  case (Cons p ps)
  obtain k v where p: "p = (k, v)" by (cases p)
  let ?new = "new_row w userId c (Date now) k v"
  show ?case
  proof (cases "db_fault w (Suc (step w))")
    case True
    with Cons.prems show ?thesis
      unfolding p upsert_loop_Cons by (auto simp: emit_simps)
  next
    case False
    let ?w2 = "(emit (DbUpsert ?new) (emit RandomUUID w))
                 \<lparr>settings_tbl := fst (insert_onConflict (settings_tbl w) ?new)\<rparr>"
    from False Cons.prems obtain upd where "upsert_loop ?w2 userId c (Date now) upd ps = (res, w')"
      unfolding p upsert_loop_Cons by auto
    from Cons.IH [OF this Cons.prems(2)]
    have "row \<in> set (fst (insert_onConflict (settings_tbl w) ?new)) \<or> s_updated_at row = Date now"
      by simp
    then show ?thesis
      using insert_onConflict_rows [of row "settings_tbl w" ?new] by (auto simp: new_row_simps)
  qed
qed

lemma upsert_loop_Inr_step:
  assumes "upsert_loop w userId c (Date now) updated ((k, v) # ps) = (Inr us, w')"
  shows "\<exists>upd. upsert_loop
           ((emit (DbUpsert (new_row w userId c (Date now) k v)) (emit RandomUUID w))
              \<lparr>settings_tbl := fst (insert_onConflict (settings_tbl w) (new_row w userId c (Date now) k v))\<rparr>)
           userId c (Date now) upd ps = (Inr us, w')"
proof (cases "db_fault w (Suc (step w))")
  case True
  with assms show ?thesis unfolding upsert_loop_Cons by simp
next
  case False
  with assms show ?thesis unfolding upsert_loop_Cons by auto
qed

lemma upsert_loop_table:
  "upsert_loop w userId c (Date now) updated ps = (Inr us, w') \<Longrightarrow> row \<in> set (settings_tbl w') \<Longrightarrow>
   (if s_user_id row = userId \<and> s_key row \<in> fst ` set ps
    then s_updated_at row = Date now \<and> map_of (rev ps) (s_key row) = Some (s_value row)
    else row \<in> set (settings_tbl w))"
proof (induction ps arbitrary: w updated)
  case Nil
  then show ?case by simp
next
  case (Cons p ps)
  obtain k v where p: "p = (k, v)" by (cases p)
  let ?new = "new_row w userId c (Date now) k v"
  let ?tbl = "fst (insert_onConflict (settings_tbl w) ?new)"
  let ?w2 = "(emit (DbUpsert ?new) (emit RandomUUID w))\<lparr>settings_tbl := ?tbl\<rparr>"
  from upsert_loop_Inr_step [OF Cons.prems(1) [unfolded p]]
  obtain upd where run: "upsert_loop ?w2 userId c (Date now) upd ps = (Inr us, w')"
    by (elim exE)
  note IH = Cons.IH [OF run Cons.prems(2)]
  show ?case
  proof (cases "s_user_id row = userId \<and> s_key row \<in> fst ` set ps")
    case True
    with IH have "s_updated_at row = Date now" "map_of (rev ps) (s_key row) = Some (s_value row)"
      by simp_all
    then show ?thesis
      using True by (simp add: p map_add_def)
  next
    case False
    with IH have in_tbl: "row \<in> set ?tbl"
      by (simp split: if_splits)
    show ?thesis
    proof (cases "conflicts ?new row")
      case True
      then have id: "s_user_id row = userId" "s_key row = k"
        by (simp_all add: conflicts_def new_row_simps)
      from insert_onConflict_rows [OF in_tbl] True
      have "s_value row = v" "s_updated_at row = Date now"
        by (simp_all add: new_row_simps)
      moreover from False id have "k \<notin> fst ` set ps"
        by simp
      then have "map_of (rev ps) k = None"
        by (simp add: map_of_eq_None_iff)
      ultimately show ?thesis
        using id by (simp add: p map_add_def)
    next
      case nc: False
      from insert_onConflict_rows [OF in_tbl] nc have "row \<in> set (settings_tbl w)"
        by simp
      moreover from nc have "\<not> (s_user_id row = userId \<and> s_key row = k)"
        by (simp add: conflicts_def new_row_simps)
      ultimately show ?thesis
        using False by (auto simp: p)
    qed
  qed
qed

lemma upsert_loop_keeps:
  "upsert_loop w userId c (Date now) updated ps = (res, w') \<Longrightarrow> r \<in> set (settings_tbl w) \<Longrightarrow>
   \<exists>row \<in> set (settings_tbl w'). s_user_id row = s_user_id r \<and> s_key row = s_key r"
proof (induction ps arbitrary: w updated r)
  case Nil
  then show ?case by auto
next
  case (Cons p ps)
  obtain k v where p: "p = (k, v)" by (cases p)
  let ?new = "new_row w userId c (Date now) k v"
  let ?tbl = "fst (insert_onConflict (settings_tbl w) ?new)"
  let ?w2 = "(emit (DbUpsert ?new) (emit RandomUUID w))\<lparr>settings_tbl := ?tbl\<rparr>"
  show ?case
  proof (cases "db_fault w (Suc (step w))")
    case True
    with Cons.prems(1) have "settings_tbl w' = settings_tbl w"
      unfolding p upsert_loop_Cons by (auto simp: emit_simps)
    with Cons.prems(2) show ?thesis by auto
  next
    case False
    with Cons.prems(1) obtain upd where run: "upsert_loop ?w2 userId c (Date now) upd ps = (res, w')"
      unfolding p upsert_loop_Cons by auto
    from insert_onConflict_keeps [OF Cons.prems(2), of ?new]
    obtain r' where r': "r' \<in> set ?tbl" "s_user_id r' = s_user_id r" "s_key r' = s_key r"
      by blast
    from r'(1) have "r' \<in> set (settings_tbl ?w2)"
      by simp
    from Cons.IH [OF run this] r'(2,3) show ?thesis
      by simp
  qed
qed

lemma upsert_loop_has:
  "upsert_loop w userId c (Date now) updated ps = (Inr us, w') \<Longrightarrow> k \<in> fst ` set ps \<Longrightarrow>
   \<exists>row \<in> set (settings_tbl w'). s_user_id row = userId \<and> s_key row = k"
proof (induction ps arbitrary: w updated)
  case Nil
  then show ?case by simp
next
  case (Cons p ps)
  obtain k' v where p: "p = (k', v)" by (cases p)
  let ?new = "new_row w userId c (Date now) k' v"
  let ?tbl = "fst (insert_onConflict (settings_tbl w) ?new)"
  let ?w2 = "(emit (DbUpsert ?new) (emit RandomUUID w))\<lparr>settings_tbl := ?tbl\<rparr>"
  from upsert_loop_Inr_step [OF Cons.prems(1) [unfolded p]]
  obtain upd where run: "upsert_loop ?w2 userId c (Date now) upd ps = (Inr us, w')"
    by (elim exE)
  show ?case
  proof (cases "k \<in> fst ` set ps")
    case True
    from Cons.IH [OF run True] show ?thesis .
  next
    case False
    with Cons.prems(2) have k: "k = k'"
      by (simp add: p)
    from insert_onConflict_has [of "settings_tbl w" ?new]
    obtain r where r: "r \<in> set ?tbl" "s_user_id r = userId" "s_key r = k'"
      by (auto simp: new_row_simps)
    from r(1) have "r \<in> set (settings_tbl ?w2)"
      by simp
    from upsert_loop_keeps [OF run this] r(2,3) k show ?thesis
      by simp
  qed
qed

lemma upsert_loop_no_fault:
  "\<forall>n < 2 * length ps. \<not> db_fault w (step w + n) \<Longrightarrow>
   \<exists>us w'. upsert_loop w userId c (Date now) updated ps = (Inr us, w')"
proof (induction ps arbitrary: w updated)
  case Nil
  then show ?case by simp
next
  case (Cons p ps)
  obtain k v where p: "p = (k, v)" by (cases p)
  let ?new = "new_row w userId c (Date now) k v"
  let ?tbl = "fst (insert_onConflict (settings_tbl w) ?new)"
  let ?w2 = "(emit (DbUpsert ?new) (emit RandomUUID w))\<lparr>settings_tbl := ?tbl\<rparr>"
  have "Suc 0 < 2 * length (p # ps)"
    by simp
  with Cons.prems have "\<not> db_fault w (step w + Suc 0)"
    by blast
  then have nf: "\<not> db_fault w (Suc (step w))"
    by simp
  have "\<forall>n < 2 * length ps. \<not> db_fault ?w2 (step ?w2 + n)"
  proof (intro allI impI)
    fix n assume "n < 2 * length ps"
    then have "Suc (Suc n) < 2 * length (p # ps)" by simp
    with Cons.prems have "\<not> db_fault w (step w + Suc (Suc n))" by blast
    then show "\<not> db_fault ?w2 (step ?w2 + n)"
      by (simp add: emit_simps step_def)
  qed
  from Cons.IH [OF this] show ?case
    unfolding p upsert_loop_Cons using nf by simp
qed

section \<open>The runs of the mutation\<close>

lemma with_createdAt_frame: "toISOString w' = toISOString w \<Longrightarrow> with_createdAt w' u = with_createdAt w u"
  by (cases "u_created_at u") (simp_all add: with_createdAt_def Date_toISOString_def)

lemma with_createdAt_valid:
  "u_created_at u \<noteq> Invalid_Date \<Longrightarrow> \<exists>g. with_createdAt w u = Inr g"
  by (cases "u_created_at u") (simp_all add: with_createdAt_def Date_toISOString_def)

lemma with_createdAt_Inr:
  "with_createdAt w u = Inr g \<Longrightarrow> u_created_at u \<noteq> Invalid_Date"
  by (cases "u_created_at u") (simp_all add: with_createdAt_def Date_toISOString_def)

lemma updateSettings_cases:
  assumes "Mutation_updateSettings w userId settings c = (res, w')"
  obtains
    (no_user) e where "res = Inl e" "w' = emit (DbSelectUser userId) w"
      "db_fault w (step w) \<or> find (\<lambda>u. u_id u = userId) (users_tbl w) = None"
      "\<not> db_fault w (step w) \<Longrightarrow> e = Error ''User not found''"
  | (loop_failed) u e where "res = Inl e"
      "find (\<lambda>u. u_id u = userId) (users_tbl w) = Some u" "\<not> db_fault w (step w)"
      "upsert_loop (emit NewDate (emit (DbSelectUser userId) w)) userId c (Date (clock w (Suc (step w)))) []
         settings = (Inl e, w')"
  | (notified) u updated w3 where
      "find (\<lambda>u. u_id u = userId) (users_tbl w) = Some u" "\<not> db_fault w (step w)"
      "upsert_loop (emit NewDate (emit (DbSelectUser userId) w)) userId c (Date (clock w (Suc (step w)))) []
         settings = (Inr updated, w3)"
      "w' = emit (HttpPost ''http://audit-service.internal/events''
                 \<lparr>ev_eventType = ''USER_SETTINGS_UPDATED'', ev_userId = userId,
                  ev_actorId = ctx_userId c, ev_at = toISOString w (clock w (Suc (step w))),
                  ev_changes = map (\<lambda>s. (e_key s, e_value s)) updated\<rparr>) w3"
      "res = (case audit_service w (step w3) of
                Inl e \<Rightarrow> Inl e
              | Inr r \<Rightarrow> if \<not> r_ok r
                         then Inl (Error (''Audit service failed: '' @ string_of_nat (r_status r)))
                         else (case with_createdAt w u of
                                 Inl e \<Rightarrow> Inl e
                               | Inr user \<Rightarrow>
                                   Inr \<lparr>p_success = True, p_user = user, p_settings = updated\<rparr>))"
proof (cases "db_fault w (step w)")
  case True
  with assms have "res = Inl DbError" "w' = emit (DbSelectUser userId) w"
    by (simp_all add: Mutation_updateSettings_def db_select_user_def)
  with True show ?thesis by (intro no_user) simp_all
next
  case nf: False
  show ?thesis
  proof (cases "find (\<lambda>u. u_id u = userId) (users_tbl w)")
    case None
    with nf assms have "res = Inl (Error ''User not found'')" "w' = emit (DbSelectUser userId) w"
      by (simp_all add: Mutation_updateSettings_def db_select_user_def)
    with None show ?thesis by (intro no_user) simp_all
  next
    case (Some u)
    let ?w2 = "emit NewDate (emit (DbSelectUser userId) w)"
    let ?now = "clock w (Suc (step w))"
    obtain lres w3 where loop: "upsert_loop ?w2 userId c (Date ?now) [] settings = (lres, w3)"
      by (cases "upsert_loop ?w2 userId c (Date ?now) [] settings")
    from upsert_loop_frame [OF loop]
    have frame: "audit_service w3 = audit_service w" "toISOString w3 = toISOString w"
      by (simp_all add: emit_simps)
    show ?thesis
    proof (cases lres)
      case (Inl e)
      with nf Some loop assms have "res = Inl e" "w' = w3"
        by (simp_all add: Mutation_updateSettings_def db_select_user_def new_Date_def emit_simps)
      with nf Some loop Inl show ?thesis by (intro loop_failed) simp_all
    next
      case (Inr updated)
      let ?ev = "\<lparr>ev_eventType = ''USER_SETTINGS_UPDATED'', ev_userId = userId,
                  ev_actorId = ctx_userId c, ev_at = toISOString w ?now,
                  ev_changes = map (\<lambda>s. (e_key s, e_value s)) updated\<rparr>"
      let ?w4 = "emit (HttpPost ''http://audit-service.internal/events'' ?ev) w3"
      have user: "with_createdAt ?w4 u = with_createdAt w u"
        using frame(2) by (intro with_createdAt_frame) (simp add: emit_simps)
      let ?ev3 = "\<lparr>ev_eventType = ''USER_SETTINGS_UPDATED'', ev_userId = userId,
                  ev_actorId = ctx_userId c, ev_at = toISOString w3 ?now,
                  ev_changes = map (\<lambda>s. (e_key s, e_value s)) updated\<rparr>"
      let ?w4' = "emit (HttpPost ''http://audit-service.internal/events'' ?ev3) w3"
      have "Mutation_updateSettings w userId settings c =
          (case audit_service w (step w3) of
             Inl e \<Rightarrow> (Inl e, ?w4')
           | Inr r \<Rightarrow>
               if \<not> r_ok r
               then (Inl (Error (''Audit service failed: '' @ string_of_nat (r_status r))), ?w4')
               else (case with_createdAt ?w4' u of
                       Inl e \<Rightarrow> (Inl e, ?w4')
                     | Inr user \<Rightarrow>
                         (Inr \<lparr>p_success = True, p_user = user, p_settings = updated\<rparr>, ?w4')))"
        using nf Some loop Inr frame(1)
        by (simp add: Mutation_updateSettings_def db_select_user_def new_Date_def emit_simps
            fetch_def Date_toISOString_def)
      with assms have eq: "(res, w') =
          (case audit_service w (step w3) of
             Inl e \<Rightarrow> (Inl e, ?w4)
           | Inr r \<Rightarrow>
               if \<not> r_ok r
               then (Inl (Error (''Audit service failed: '' @ string_of_nat (r_status r))), ?w4)
               else (case with_createdAt w u of
                       Inl e \<Rightarrow> (Inl e, ?w4)
                     | Inr user \<Rightarrow>
                         (Inr \<lparr>p_success = True, p_user = user, p_settings = updated\<rparr>, ?w4)))"
        unfolding frame(2) user by simp
      have "w' = ?w4"
        using eq by (cases "audit_service w (step w3)"; cases "with_createdAt w u") (simp_all split: if_splits)
      moreover
      have "res = (case audit_service w (step w3) of
                Inl e \<Rightarrow> Inl e
              | Inr r \<Rightarrow> if \<not> r_ok r
                         then Inl (Error (''Audit service failed: '' @ string_of_nat (r_status r)))
                         else (case with_createdAt w u of
                                 Inl e \<Rightarrow> Inl e
                               | Inr user \<Rightarrow>
                                   Inr \<lparr>p_success = True, p_user = user, p_settings = updated\<rparr>))"
        using eq by (cases "audit_service w (step w3)"; cases "with_createdAt w u") (simp_all split: if_splits)
      ultimately show ?thesis
        using nf Some loop Inr by (intro notified) simp_all
    qed
  qed
qed

lemmas run_defs =
  Mutation_updateSettings_def db_select_user_def new_Date_def randomUUID_def db_upsert_def
  insert_onConflict_def conflicts_def doUpdateSet_def fetch_def emit_def step_def
  with_createdAt_def Date_toISOString_def string_of_nat.simps Let_def

lemma find_user_Some:
  assumes "userId \<in> u_id ` set (users_tbl w)"
  obtains u where "find (\<lambda>u. u_id u = userId) (users_tbl w) = Some u"
proof (cases "find (\<lambda>u. u_id u = userId) (users_tbl w)")
  case None
  with assms show ?thesis by (auto simp: find_None_iff)
next
  case (Some u)
  then show ?thesis by (rule that)
qed

lemma find_user_None:
  "userId \<notin> u_id ` set (users_tbl w) \<Longrightarrow> find (\<lambda>u. u_id u = userId) (users_tbl w) = None"
  by (auto simp: find_None_iff)

section \<open>The claims\<close>

text \<open>
  C1. When \<open>userId\<close> is the id of no row of \<^verbatim>\<open>users\<close>, \<^verbatim>\<open>updateSettings\<close> throws, whatever
  the pairs: \<^verbatim>\<open>Error("User not found")\<close> when the lookup itself goes through (a lookup that
  fails throws its own error). Either way the settings table is as before, and the only
  thing done is the lookup: no upsert, no request to the audit service.
\<close>

theorem updateSettings_unknown_user:
  assumes "userId \<notin> u_id ` set (users_tbl w)"
  shows "(\<exists>e. fst (Mutation_updateSettings w userId settings c) = Inl e) \<and>
         (\<not> db_fault w (step w) \<longrightarrow>
            fst (Mutation_updateSettings w userId settings c) = Inl (Error ''User not found'')) \<and>
         settings_tbl (snd (Mutation_updateSettings w userId settings c)) = settings_tbl w \<and>
         trace (snd (Mutation_updateSettings w userId settings c)) = trace w @ [DbSelectUser userId]"
proof -
  obtain res w' where run: "Mutation_updateSettings w userId settings c = (res, w')"
    by (cases "Mutation_updateSettings w userId settings c")
  note none = find_user_None [OF assms]
  from run show ?thesis
  proof (cases rule: updateSettings_cases)
    case (no_user e)
    then show ?thesis using run by (simp add: emit_simps)
  next
    case (loop_failed u e)
    with none show ?thesis by simp
  next
    case (notified u updated w3)
    with none show ?thesis by simp
  qed
qed

theorem updateSettings_unknown_user_witness:
  "''nobody'' \<notin> u_id ` set (users_tbl world0) \<and>
   fst (Mutation_updateSettings world0 ''nobody'' [(''theme'', ''dark'')] ctx0) =
     Inl (Error ''User not found'') \<and>
   settings_tbl (snd (Mutation_updateSettings world0 ''nobody'' [(''theme'', ''dark'')] ctx0)) =
     settings_tbl world0 \<and>
   trace (snd (Mutation_updateSettings world0 ''nobody'' [(''theme'', ''dark'')] ctx0)) =
     [DbSelectUser ''nobody'']"
proof -
  have h: "''nobody'' \<notin> u_id ` set (users_tbl world0)"
    by (simp add: world0_def)
  have nf: "\<not> db_fault world0 (step world0)"
    by (simp add: world0_def)
  have tr: "trace world0 = []"
    by (simp add: world0_def)
  from updateSettings_unknown_user [OF h, of "[(''theme'', ''dark'')]" ctx0] h nf tr
  show ?thesis by simp
qed

text \<open>
  C10. A payload that \<^verbatim>\<open>updateSettings\<close> returns has \<^verbatim>\<open>success\<close> true: a failure is never a
  returned payload.
\<close>

theorem updateSettings_payload_success:
  assumes "Mutation_updateSettings w userId settings c = (Inr p, w')"
  shows "p_success p"
  using assms
proof (cases rule: updateSettings_cases)
  case (notified u updated w3)
  from notified(5) show ?thesis
    by (simp split: sum.splits if_splits)
qed simp_all

lemma world0_run:
  "fst (Mutation_updateSettings world0 ''u1'' [(''theme'', ''dark''), (''lang'', ''en'')] ctx0) =
     Inr \<lparr>p_success = True,
          p_user = \<lparr>u_id = ''u1'', u_email = ''u1@example.org'', u_role = MEMBER,
                    u_created_at = Date 5, createdAt = ''5''\<rparr>,
          p_settings =
            [\<lparr>e_id = ''s1'', e_key = ''theme'', e_value = ''dark'', e_updatedAt = ''101'',
              e_updatedById = Some ''u1''\<rparr>,
             \<lparr>e_id = ''id-4'', e_key = ''lang'', e_value = ''en'', e_updatedAt = ''101'',
              e_updatedById = Some ''admin''\<rparr>]\<rparr>"
  by (simp add: run_defs world0_def ctx0_def)

lemma world0_run_trace:
  "trace (snd (Mutation_updateSettings world0 ''u1'' [(''theme'', ''dark''), (''lang'', ''en'')] ctx0)) =
     [DbSelectUser ''u1'', NewDate, RandomUUID,
      DbUpsert \<lparr>s_id = ''id-2'', s_user_id = ''u1'', s_key = ''theme'', s_value = ''dark'',
                s_updated_at = Date 101, s_updated_by = Some ''admin''\<rparr>,
      RandomUUID,
      DbUpsert \<lparr>s_id = ''id-4'', s_user_id = ''u1'', s_key = ''lang'', s_value = ''en'',
                s_updated_at = Date 101, s_updated_by = Some ''admin''\<rparr>,
      HttpPost ''http://audit-service.internal/events''
        \<lparr>ev_eventType = ''USER_SETTINGS_UPDATED'', ev_userId = ''u1'', ev_actorId = Some ''admin'',
         ev_at = ''101'', ev_changes = [(''theme'', ''dark''), (''lang'', ''en'')]\<rparr>]"
  by (simp add: run_defs world0_def ctx0_def)

lemma world0_run_table:
  "settings_tbl (snd (Mutation_updateSettings world0 ''u1'' [(''theme'', ''dark''), (''lang'', ''en'')] ctx0)) =
     [\<lparr>s_id = ''s1'', s_user_id = ''u1'', s_key = ''theme'', s_value = ''dark'',
       s_updated_at = Date 101, s_updated_by = Some ''u1''\<rparr>,
      \<lparr>s_id = ''id-4'', s_user_id = ''u1'', s_key = ''lang'', s_value = ''en'',
       s_updated_at = Date 101, s_updated_by = Some ''admin''\<rparr>]"
  by (simp add: run_defs world0_def ctx0_def)

theorem updateSettings_payload_success_witness:
  "(\<exists>p w'. Mutation_updateSettings world0 ''u1'' [(''theme'', ''dark''), (''lang'', ''en'')] ctx0 = (Inr p, w')
      \<and> p_success p)"
proof -
  obtain p where p: "fst (Mutation_updateSettings world0 ''u1'' [(''theme'', ''dark''), (''lang'', ''en'')] ctx0) = Inr p"
    using world0_run by blast
  then have run: "Mutation_updateSettings world0 ''u1'' [(''theme'', ''dark''), (''lang'', ''en'')] ctx0 =
      (Inr p, snd (Mutation_updateSettings world0 ''u1'' [(''theme'', ''dark''), (''lang'', ''en'')] ctx0))"
    by (simp add: prod_eq_iff)
  from updateSettings_payload_success [OF run] run show ?thesis
    by blast
qed

lemma updateSettings_Inr:
  assumes "Mutation_updateSettings w userId settings c = (Inr p, w')"
  obtains u w3 where
    "find (\<lambda>u. u_id u = userId) (users_tbl w) = Some u"
    "upsert_loop (emit NewDate (emit (DbSelectUser userId) w)) userId c (Date (clock w (Suc (step w)))) []
       settings = (Inr (p_settings p), w3)"
    "w' = emit (HttpPost ''http://audit-service.internal/events''
               \<lparr>ev_eventType = ''USER_SETTINGS_UPDATED'', ev_userId = userId,
                ev_actorId = ctx_userId c, ev_at = toISOString w (clock w (Suc (step w))),
                ev_changes = map (\<lambda>s. (e_key s, e_value s)) (p_settings p)\<rparr>) w3"
  using assms
proof (cases rule: updateSettings_cases)
  case (notified u updated w3)
  from notified(5) have "p_settings p = updated"
    by (auto split: sum.splits if_splits)
  with notified show ?thesis by (intro that) simp_all
qed simp_all

text \<open>
  C6. When \<^verbatim>\<open>updateSettings\<close> returns a payload, its \<^verbatim>\<open>settings\<close> list has one entry per
  input pair, in the order of the input: entry \<open>i\<close> has the key and the value of pair \<open>i\<close>.
\<close>

theorem updateSettings_payload_order:
  assumes "Mutation_updateSettings w userId settings c = (Inr p, w')"
  shows "map (\<lambda>s. (e_key s, e_value s)) (p_settings p) = settings \<and>
         length (p_settings p) = length settings"
  using assms
proof (cases rule: updateSettings_Inr)
  case (1 u w3)
  from upsert_loop_result [OF 1(2)]
  have eq: "map (\<lambda>s. (e_key s, e_value s)) (p_settings p) = settings"
    by auto
  from arg_cong [OF eq, of length] have "length (p_settings p) = length settings"
    by simp
  with eq show ?thesis by simp
qed

theorem updateSettings_payload_order_witness:
  "\<exists>p w'. Mutation_updateSettings world0 ''u1'' [(''theme'', ''dark''), (''lang'', ''en'')] ctx0 = (Inr p, w') \<and>
     map (\<lambda>s. (e_key s, e_value s)) (p_settings p) = [(''theme'', ''dark''), (''lang'', ''en'')] \<and>
     length (p_settings p) = 2"
proof -
  obtain p where p: "fst (Mutation_updateSettings world0 ''u1'' [(''theme'', ''dark''), (''lang'', ''en'')] ctx0) = Inr p"
    using world0_run by blast
  then have run: "Mutation_updateSettings world0 ''u1'' [(''theme'', ''dark''), (''lang'', ''en'')] ctx0 =
      (Inr p, snd (Mutation_updateSettings world0 ''u1'' [(''theme'', ''dark''), (''lang'', ''en'')] ctx0))"
    by (simp add: prod_eq_iff)
  from updateSettings_payload_order [OF run] run show ?thesis
    by auto
qed

text \<open>
  C4. When \<^verbatim>\<open>updateSettings\<close> returns a payload, what it did is: some steps \<open>pre\<close> with no
  request to the audit service among them, whose upserts are the input pairs in order,
  and then one request to the audit service, the last step, whose \<^verbatim>\<open>changes\<close> are the
  input pairs in order. So there is one event for the whole batch, sent after every
  upsert, and no upsert after it.
\<close>

theorem updateSettings_one_notification:
  assumes "Mutation_updateSettings w userId settings c = (Inr p, w')"
  shows "\<exists>pre ev. trace w' = trace w @ pre @ [HttpPost ''http://audit-service.internal/events'' ev] \<and>
           notifications pre = [] \<and> upserts pre = settings \<and> ev_changes ev = settings"
  using assms
proof (cases rule: updateSettings_Inr)
  case (1 u w3)
  let ?ev = "\<lparr>ev_eventType = ''USER_SETTINGS_UPDATED'', ev_userId = userId,
              ev_actorId = ctx_userId c, ev_at = toISOString w (clock w (Suc (step w))),
              ev_changes = map (\<lambda>s. (e_key s, e_value s)) (p_settings p)\<rparr>"
  from upsert_loop_trace [OF 1(2)] obtain ext where ext:
    "trace w3 = trace (emit NewDate (emit (DbSelectUser userId) w)) @ ext"
    "notifications ext = []" "upserts ext = settings"
    by auto
  from upsert_loop_result [OF 1(2)]
  have changes: "map (\<lambda>s. (e_key s, e_value s)) (p_settings p) = settings"
    by auto
  have "trace w' = trace w @ ([DbSelectUser userId, NewDate] @ ext) @
                   [HttpPost ''http://audit-service.internal/events'' ?ev]"
    using 1(3) ext(1) by (simp add: emit_simps)
  moreover have "notifications ([DbSelectUser userId, NewDate] @ ext) = []"
    using ext(2) by simp
  moreover have "upserts ([DbSelectUser userId, NewDate] @ ext) = settings"
    using ext(3) by simp
  moreover have "ev_changes ?ev = settings"
    using changes by simp
  ultimately show ?thesis by blast
qed

theorem updateSettings_one_notification_witness:
  "\<exists>p w'. Mutation_updateSettings world0 ''u1'' [(''theme'', ''dark''), (''lang'', ''en'')] ctx0 = (Inr p, w') \<and>
     (\<exists>pre ev. trace w' = trace world0 @ pre @ [HttpPost ''http://audit-service.internal/events'' ev] \<and>
        notifications pre = [] \<and> upserts pre = [(''theme'', ''dark''), (''lang'', ''en'')] \<and>
        ev_changes ev = [(''theme'', ''dark''), (''lang'', ''en'')])"
proof -
  let ?run = "Mutation_updateSettings world0 ''u1'' [(''theme'', ''dark''), (''lang'', ''en'')] ctx0"
  obtain p where p: "fst ?run = Inr p"
    using world0_run by blast
  then have run: "?run = (Inr p, snd ?run)"
    by (simp add: prod_eq_iff)
  from updateSettings_one_notification [OF run] run show ?thesis
    by blast
qed

lemma notifications_Nil_no_post: "notifications es = [] \<Longrightarrow> HttpPost url ev \<notin> set es"
  by (induction es rule: notifications.induct) auto

lemma find_user_Some_in: "find (\<lambda>u. u_id u = userId) (users_tbl w) = Some u \<Longrightarrow> userId \<in> u_id ` set (users_tbl w)"
  by (auto simp: find_Some_iff)

text \<open>
  C5. Whatever the outcome of an invocation, the clock is read at most once (once exactly
  when the user is found), and with \<open>now\<close> the reading made right after the lookup: every
  upsert sent to the database carries \<open>now\<close> as \<^verbatim>\<open>updated_at\<close>, every event posted carries
  \<open>now\<close> as \<^verbatim>\<open>at\<close>, every row of the table afterwards is either a row that was there
  before or has \<open>now\<close> as its update time; and when a payload is returned, each of its
  entries has \<open>now\<close> as \<^verbatim>\<open>updatedAt\<close> and every row of the user under a key of the batch has
  \<open>now\<close> as its update time.
\<close>

theorem updateSettings_one_timestamp:
  assumes "Mutation_updateSettings w userId settings c = (res, w')"
  shows "\<exists>ext. trace w' = trace w @ ext \<and>
      clock_reads ext = (if db_fault w (step w) \<or> userId \<notin> u_id ` set (users_tbl w) then 0 else 1) \<and>
      (\<forall>new. DbUpsert new \<in> set ext \<longrightarrow> s_updated_at new = Date (clock w (Suc (step w)))) \<and>
      (\<forall>url ev. HttpPost url ev \<in> set ext \<longrightarrow> ev_at ev = toISOString w (clock w (Suc (step w)))) \<and>
      (\<forall>row \<in> set (settings_tbl w').
          row \<in> set (settings_tbl w) \<or> s_updated_at row = Date (clock w (Suc (step w)))) \<and>
      (\<forall>p. res = Inr p \<longrightarrow>
          (\<forall>s \<in> set (p_settings p). e_updatedAt s = toISOString w (clock w (Suc (step w)))) \<and>
          (\<forall>row \<in> set (settings_tbl w').
              s_user_id row = userId \<and> s_key row \<in> fst ` set settings \<longrightarrow>
              s_updated_at row = Date (clock w (Suc (step w)))))"
  using assms
proof (cases rule: updateSettings_cases)
  case (no_user e)
  from no_user(3) have "db_fault w (step w) \<or> userId \<notin> u_id ` set (users_tbl w)"
    by (auto simp: find_None_iff)
  moreover have "trace w' = trace w @ [DbSelectUser userId]" "settings_tbl w' = settings_tbl w"
    using no_user(2) by (simp_all add: emit_simps)
  ultimately show ?thesis
    using no_user(1) by auto
next
  case (loop_failed u e)
  let ?w2 = "emit NewDate (emit (DbSelectUser userId) w)"
  let ?now = "clock w (Suc (step w))"
  from upsert_loop_trace [OF loop_failed(4)] obtain ext where ext:
    "trace w' = trace ?w2 @ ext" "notifications ext = []" "clock_reads ext = 0"
    "\<forall>new. DbUpsert new \<in> set ext \<longrightarrow> s_updated_at new = Date ?now"
    by blast
  have user: "\<not> (db_fault w (step w) \<or> userId \<notin> u_id ` set (users_tbl w))"
    using loop_failed(2,3) find_user_Some_in by blast
  have "trace w' = trace w @ ([DbSelectUser userId, NewDate] @ ext)"
    using ext(1) by (simp add: emit_simps)
  moreover have "clock_reads ([DbSelectUser userId, NewDate] @ ext) = 1"
    using ext(3) by simp
  moreover have "\<forall>new. DbUpsert new \<in> set ([DbSelectUser userId, NewDate] @ ext) \<longrightarrow>
      s_updated_at new = Date ?now"
    using ext(4) by simp
  moreover have "\<forall>url ev. HttpPost url ev \<in> set ([DbSelectUser userId, NewDate] @ ext) \<longrightarrow>
      ev_at ev = toISOString w ?now"
    using notifications_Nil_no_post [OF ext(2)] by simp
  moreover have "\<forall>row \<in> set (settings_tbl w'). row \<in> set (settings_tbl w) \<or> s_updated_at row = Date ?now"
    using upsert_loop_written [OF loop_failed(4)] by (auto simp: emit_simps)
  moreover have "\<forall>p. res = Inr p \<longrightarrow>
      (\<forall>s \<in> set (p_settings p). e_updatedAt s = toISOString w ?now) \<and>
      (\<forall>row \<in> set (settings_tbl w').
          s_user_id row = userId \<and> s_key row \<in> fst ` set settings \<longrightarrow> s_updated_at row = Date ?now)"
    using loop_failed(1) by simp
  ultimately show ?thesis
    using user by (intro exI [of _ "[DbSelectUser userId, NewDate] @ ext"]) simp
next
  case (notified u updated w3)
  let ?w2 = "emit NewDate (emit (DbSelectUser userId) w)"
  let ?now = "clock w (Suc (step w))"
  let ?ev = "\<lparr>ev_eventType = ''USER_SETTINGS_UPDATED'', ev_userId = userId,
              ev_actorId = ctx_userId c, ev_at = toISOString w ?now,
              ev_changes = map (\<lambda>s. (e_key s, e_value s)) updated\<rparr>"
  let ?post = "HttpPost ''http://audit-service.internal/events'' ?ev"
  from upsert_loop_trace [OF notified(3)] obtain ext where ext:
    "trace w3 = trace ?w2 @ ext" "notifications ext = []" "clock_reads ext = 0"
    "\<forall>new. DbUpsert new \<in> set ext \<longrightarrow> s_updated_at new = Date ?now"
    by blast
  have user: "\<not> (db_fault w (step w) \<or> userId \<notin> u_id ` set (users_tbl w))"
    using notified(1,2) find_user_Some_in by blast
  have "trace w' = trace w @ ([DbSelectUser userId, NewDate] @ ext @ [?post])"
    using ext(1) notified(4) by (simp add: emit_simps)
  moreover have "clock_reads ([DbSelectUser userId, NewDate] @ ext @ [?post]) = 1"
    using ext(3) by (simp add: clock_reads_append)
  moreover have "\<forall>new. DbUpsert new \<in> set ([DbSelectUser userId, NewDate] @ ext @ [?post]) \<longrightarrow>
      s_updated_at new = Date ?now"
    using ext(4) by simp
  moreover have "\<forall>url ev. HttpPost url ev \<in> set ([DbSelectUser userId, NewDate] @ ext @ [?post]) \<longrightarrow>
      ev_at ev = toISOString w ?now"
    using notifications_Nil_no_post [OF ext(2)] by auto
  moreover have "\<forall>row \<in> set (settings_tbl w'). row \<in> set (settings_tbl w) \<or> s_updated_at row = Date ?now"
    using upsert_loop_written [OF notified(3)] notified(4) by (auto simp: emit_simps)
  moreover have "\<forall>p. res = Inr p \<longrightarrow>
      (\<forall>s \<in> set (p_settings p). e_updatedAt s = toISOString w ?now) \<and>
      (\<forall>row \<in> set (settings_tbl w').
          s_user_id row = userId \<and> s_key row \<in> fst ` set settings \<longrightarrow> s_updated_at row = Date ?now)"
  proof (intro allI impI conjI ballI)
    fix p s assume "res = Inr p" and s: "s \<in> set (p_settings p)"
    with notified(5) have "p_settings p = updated"
      by (auto split: sum.splits if_splits)
    moreover from upsert_loop_result [OF notified(3)]
    have "\<forall>s \<in> set updated. e_updatedAt s = toISOString ?w2 ?now"
      by auto
    ultimately show "e_updatedAt s = toISOString w ?now"
      using s by (simp add: emit_simps)
  next
    fix row assume "row \<in> set (settings_tbl w')"
      and k: "s_user_id row = userId \<and> s_key row \<in> fst ` set settings"
    with notified(4) have "row \<in> set (settings_tbl w3)"
      by (simp add: emit_simps)
    from upsert_loop_table [OF notified(3) this] k show "s_updated_at row = Date ?now"
      by simp
  qed
  ultimately show ?thesis
    using user by (intro exI [of _ "[DbSelectUser userId, NewDate] @ ext @ [?post]"]) simp
qed

theorem updateSettings_one_timestamp_witness:
  "\<exists>res w'. Mutation_updateSettings world0 ''u1'' [(''theme'', ''dark''), (''lang'', ''en'')] ctx0 = (res, w') \<and>
     clock_reads (trace w') = 1 \<and>
     map s_updated_at (settings_tbl w') = [Date 101, Date 101] \<and>
     map ev_at (notifications (trace w')) = [''101'']"
proof -
  let ?run = "Mutation_updateSettings world0 ''u1'' [(''theme'', ''dark''), (''lang'', ''en'')] ctx0"
  have run: "?run = (fst ?run, snd ?run)"
    by simp
  from updateSettings_one_timestamp [OF run] obtain ext where
    "trace (snd ?run) = trace world0 @ ext"
    "clock_reads ext =
       (if db_fault world0 (step world0) \<or> ''u1'' \<notin> u_id ` set (users_tbl world0) then 0 else 1)"
    by blast
  then have a: "clock_reads (trace (snd ?run)) = 1"
    by (simp add: world0_def step_def)
  have b: "map s_updated_at (settings_tbl (snd ?run)) = [Date 101, Date 101]"
    by (simp add: world0_run_table)
  have c: "map ev_at (notifications (trace (snd ?run))) = [''101'']"
    by (simp add: world0_run_trace)
  show ?thesis
    by (rule exI [of _ "fst ?run"], rule exI [of _ "snd ?run"]) (simp add: a b c)
qed

lemma updateSettings_no_fault:
  assumes "userId \<in> u_id ` set (users_tbl w)"
    and "\<forall>n < 2 * length settings + 2. \<not> db_fault w (step w + n)"
  obtains u updated w3 where
    "upsert_loop (emit NewDate (emit (DbSelectUser userId) w)) userId c (Date (clock w (Suc (step w)))) []
       settings = (Inr updated, w3)"
    "step w3 = step w + 2 * length settings + 2"
    "db_fault w3 = db_fault w"
    "Mutation_updateSettings w userId settings c =
       (case audit_service w (step w3) of
          Inl e \<Rightarrow> Inl e
        | Inr r \<Rightarrow> if \<not> r_ok r
                   then Inl (Error (''Audit service failed: '' @ string_of_nat (r_status r)))
                   else (case with_createdAt w u of
                                 Inl e \<Rightarrow> Inl e
                               | Inr user \<Rightarrow>
                                   Inr \<lparr>p_success = True, p_user = user, p_settings = updated\<rparr>),
        emit (HttpPost ''http://audit-service.internal/events''
               \<lparr>ev_eventType = ''USER_SETTINGS_UPDATED'', ev_userId = userId,
                ev_actorId = ctx_userId c, ev_at = toISOString w (clock w (Suc (step w))),
                ev_changes = map (\<lambda>s. (e_key s, e_value s)) updated\<rparr>) w3)"
proof -
  let ?w2 = "emit NewDate (emit (DbSelectUser userId) w)"
  let ?now = "clock w (Suc (step w))"
  have "\<forall>n < 2 * length settings. \<not> db_fault ?w2 (step ?w2 + n)"
  proof (intro allI impI)
    fix n assume "n < 2 * length settings"
    then have "Suc (Suc n) < 2 * length settings + 2" by simp
    with assms(2) have "\<not> db_fault w (step w + Suc (Suc n))" by blast
    then show "\<not> db_fault ?w2 (step ?w2 + n)"
      by (simp add: emit_simps)
  qed
  from upsert_loop_no_fault [OF this] obtain us w3 where
    loop: "upsert_loop ?w2 userId c (Date ?now) [] settings = (Inr us, w3)"
    by blast
  from upsert_loop_trace [OF loop] obtain ext where
    "trace w3 = trace ?w2 @ ext" "length ext = 2 * length settings"
    by blast
  then have st: "step w3 = step w + 2 * length settings + 2"
    by (simp add: step_def emit_simps)
  from upsert_loop_frame [OF loop] have fr: "db_fault w3 = db_fault w"
    by (simp add: emit_simps)
  obtain res w' where run: "Mutation_updateSettings w userId settings c = (res, w')"
    by (cases "Mutation_updateSettings w userId settings c")
  have "0 < 2 * length settings + 2" by simp
  with assms(2) have "\<not> db_fault w (step w + 0)" by blast
  then have nf: "\<not> db_fault w (step w)" by simp
  from run show ?thesis
  proof (cases rule: updateSettings_cases)
    case (no_user e)
    with nf assms(1) show ?thesis by (auto simp: find_None_iff)
  next
    case (loop_failed u e)
    with loop show ?thesis by simp
  next
    case (notified u updated w3')
    with loop have eqs: "updated = us" "w3' = w3" by simp_all
    from run notified(4,5)
    have "Mutation_updateSettings w userId settings c =
       (case audit_service w (step w3) of
          Inl e \<Rightarrow> Inl e
        | Inr r \<Rightarrow> if \<not> r_ok r
                   then Inl (Error (''Audit service failed: '' @ string_of_nat (r_status r)))
                   else (case with_createdAt w u of
                                 Inl e \<Rightarrow> Inl e
                               | Inr user \<Rightarrow>
                                   Inr \<lparr>p_success = True, p_user = user, p_settings = us\<rparr>),
        emit (HttpPost ''http://audit-service.internal/events''
               \<lparr>ev_eventType = ''USER_SETTINGS_UPDATED'', ev_userId = userId,
                ev_actorId = ctx_userId c, ev_at = toISOString w (clock w (Suc (step w))),
                ev_changes = map (\<lambda>s. (e_key s, e_value s)) us\<rparr>) w3)"
      unfolding eqs by simp
    with loop st fr show ?thesis by (rule that [of us w3 u])
  qed
qed

text \<open>
  C3. The user exists, no query of the database fails, and the audit service answers
  the request with a response that is not ok. Then \<^verbatim>\<open>updateSettings\<close> throws
  \<^verbatim>\<open>Error("Audit service failed: <status>")\<close>, and the upserts stay: all of the pairs were
  upserted, every key of the batch has a row of the user in the table afterwards, every
  such row has the batch's timestamp and the last value the batch gave its key, and
  \<^verbatim>\<open>settingsCount\<close> of the user then counts at least the distinct keys of the batch.
\<close>

theorem updateSettings_audit_failure:
  assumes "userId \<in> u_id ` set (users_tbl w)"
    and "\<forall>n < 2 * length settings + 2. \<not> db_fault w (step w + n)"
    and "audit_service w (step w + 2 * length settings + 2) = Inr r"
    and "\<not> r_ok r"
    and "Mutation_updateSettings w userId settings c = (res, w')"
  shows "res = Inl (Error (''Audit service failed: '' @ string_of_nat (r_status r))) \<and>
         upserts (drop (length (trace w)) (trace w')) = settings \<and>
         (\<forall>k \<in> fst ` set settings.
            \<exists>row \<in> set (settings_tbl w'). s_user_id row = userId \<and> s_key row = k) \<and>
         (\<forall>row \<in> set (settings_tbl w').
            s_user_id row = userId \<and> s_key row \<in> fst ` set settings \<longrightarrow>
            s_updated_at row = Date (clock w (Suc (step w))) \<and>
            map_of (rev settings) (s_key row) = Some (s_value row)) \<and>
         (\<not> db_fault w (step w + 2 * length settings + 3) \<longrightarrow>
            (\<exists>n. fst (User_settingsCount w' userId) = Inr n \<and> card (fst ` set settings) \<le> n))"
proof -
  let ?w2 = "emit NewDate (emit (DbSelectUser userId) w)"
  let ?now = "clock w (Suc (step w))"
  from assms(1,2) obtain u updated w3 where
    loop: "upsert_loop ?w2 userId c (Date ?now) [] settings = (Inr updated, w3)" and
    st: "step w3 = step w + 2 * length settings + 2" and
    fr: "db_fault w3 = db_fault w" and
    run: "Mutation_updateSettings w userId settings c =
       (case audit_service w (step w3) of
          Inl e \<Rightarrow> Inl e
        | Inr r \<Rightarrow> if \<not> r_ok r
                   then Inl (Error (''Audit service failed: '' @ string_of_nat (r_status r)))
                   else (case with_createdAt w u of
                                 Inl e \<Rightarrow> Inl e
                               | Inr user \<Rightarrow>
                                   Inr \<lparr>p_success = True, p_user = user, p_settings = updated\<rparr>),
        emit (HttpPost ''http://audit-service.internal/events''
               \<lparr>ev_eventType = ''USER_SETTINGS_UPDATED'', ev_userId = userId,
                ev_actorId = ctx_userId c, ev_at = toISOString w (clock w (Suc (step w))),
                ev_changes = map (\<lambda>s. (e_key s, e_value s)) updated\<rparr>) w3)"
    by (rule updateSettings_no_fault [where c = c])
  let ?post = "HttpPost ''http://audit-service.internal/events''
               \<lparr>ev_eventType = ''USER_SETTINGS_UPDATED'', ev_userId = userId,
                ev_actorId = ctx_userId c, ev_at = toISOString w (clock w (Suc (step w))),
                ev_changes = map (\<lambda>s. (e_key s, e_value s)) updated\<rparr>"
  from run assms(3,4,5) st
  have res: "res = Inl (Error (''Audit service failed: '' @ string_of_nat (r_status r)))"
    and w': "w' = emit ?post w3"
    by simp_all
  from upsert_loop_trace [OF loop] obtain ext where ext:
    "trace w3 = trace ?w2 @ ext" "upserts ext = settings"
    by blast
  have "trace w' = trace w @ ([DbSelectUser userId, NewDate] @ ext @ [?post])"
    using ext(1) w' by (simp add: emit_simps)
  then have "drop (length (trace w)) (trace w') = [DbSelectUser userId, NewDate] @ ext @ [?post]"
    by simp
  then have ups: "upserts (drop (length (trace w)) (trace w')) = settings"
    using ext(2) by (simp add: upserts_append)
  have tbl: "settings_tbl w' = settings_tbl w3"
    using w' by (simp add: emit_simps)
  have has: "\<forall>k \<in> fst ` set settings.
      \<exists>row \<in> set (settings_tbl w'). s_user_id row = userId \<and> s_key row = k"
    using upsert_loop_has [OF loop] tbl by simp
  have vals: "\<forall>row \<in> set (settings_tbl w').
      s_user_id row = userId \<and> s_key row \<in> fst ` set settings \<longrightarrow>
      s_updated_at row = Date ?now \<and> map_of (rev settings) (s_key row) = Some (s_value row)"
  proof (intro ballI impI)
    fix row assume "row \<in> set (settings_tbl w')"
      and k: "s_user_id row = userId \<and> s_key row \<in> fst ` set settings"
    then have "row \<in> set (settings_tbl w3)" using tbl by simp
    from upsert_loop_table [OF loop this] k
    show "s_updated_at row = Date ?now \<and> map_of (rev settings) (s_key row) = Some (s_value row)"
      by simp
  qed
  let ?mine = "filter (\<lambda>r. s_user_id r = userId) (settings_tbl w')"
  have "fst ` set settings \<subseteq> s_key ` set ?mine"
    using has by force
  then have "card (fst ` set settings) \<le> card (s_key ` set ?mine)"
    by (intro card_mono) simp_all
  also have "\<dots> \<le> card (set ?mine)"
    by (intro card_image_le) simp
  also have "\<dots> \<le> length ?mine"
    by (rule card_length)
  finally have cnt: "card (fst ` set settings) \<le> length ?mine" .
  have "step w' = step w + 2 * length settings + 3" "db_fault w' = db_fault w"
    using w' st fr by (simp_all add: emit_simps)
  then have "\<not> db_fault w (step w + 2 * length settings + 3) \<longrightarrow>
      (\<exists>n. fst (User_settingsCount w' userId) = Inr n \<and> card (fst ` set settings) \<le> n)"
    using cnt by (simp add: User_settingsCount_def db_count_settings_def)
  with res ups has vals show ?thesis by blast
qed

theorem updateSettings_audit_failure_witness:
  "''u1'' \<in> u_id ` set (users_tbl world_audit_down) \<and>
   audit_service world_audit_down (step world_audit_down + 2 * length [(''theme'', ''dark''), (''lang'', ''en'')] + 2) =
     Inr \<lparr>r_ok = False, r_status = 503\<rparr> \<and>
   fst (Mutation_updateSettings world_audit_down ''u1'' [(''theme'', ''dark''), (''lang'', ''en'')] ctx0) =
     Inl (Error ''Audit service failed: 503'') \<and>
   upserts (trace (snd (Mutation_updateSettings world_audit_down ''u1''
                          [(''theme'', ''dark''), (''lang'', ''en'')] ctx0))) =
     [(''theme'', ''dark''), (''lang'', ''en'')] \<and>
   map (\<lambda>row. (s_key row, s_value row, s_updated_at row))
     (settings_tbl (snd (Mutation_updateSettings world_audit_down ''u1''
                           [(''theme'', ''dark''), (''lang'', ''en'')] ctx0))) =
     [(''theme'', ''dark'', Date 101), (''lang'', ''en'', Date 101)]"
proof -
  let ?settings = "[(''theme'', ''dark''), (''lang'', ''en'')]"
  let ?run = "Mutation_updateSettings world_audit_down ''u1'' ?settings ctx0"
  let ?r = "\<lparr>r_ok = False, r_status = 503\<rparr>"
  have h1: "''u1'' \<in> u_id ` set (users_tbl world_audit_down)"
    by (simp add: world_audit_down_def world0_def)
  have h2: "\<forall>n < 2 * length ?settings + 2. \<not> db_fault world_audit_down (step world_audit_down + n)"
    by (simp add: world_audit_down_def world0_def)
  have h3: "audit_service world_audit_down (step world_audit_down + 2 * length ?settings + 2) = Inr ?r"
    by (simp add: world_audit_down_def world0_def)
  have h4: "\<not> r_ok ?r"
    by simp
  have h5: "?run = (fst ?run, snd ?run)"
    by simp
  have tr: "trace world_audit_down = []"
    by (simp add: world_audit_down_def world0_def)
  have tbl: "map (\<lambda>row. (s_key row, s_value row, s_updated_at row)) (settings_tbl (snd ?run)) =
     [(''theme'', ''dark'', Date 101), (''lang'', ''en'', Date 101)]"
    by (simp add: run_defs world_audit_down_def world0_def ctx0_def)
  from updateSettings_audit_failure [OF h1 h2 h3 h4 h5]
  have "fst ?run = Inl (Error (''Audit service failed: '' @ string_of_nat (r_status ?r)))"
    and "upserts (drop (length (trace world_audit_down)) (trace (snd ?run))) = ?settings"
    by blast+
  then have "fst ?run = Inl (Error ''Audit service failed: 503'')"
    and "upserts (trace (snd ?run)) = ?settings"
    by (simp_all add: tr string_of_nat.simps)
  with h1 h3 tbl show ?thesis
    by (intro conjI)
qed

text \<open>
  C9. For an existing user (whose lookup goes through) and an empty list of pairs: no
  upsert is made and the table is as before; after the lookup and the reading of the
  clock, one event with an empty \<^verbatim>\<open>changes\<close> list is posted; a payload is returned only if
  the audit service answers that request with an ok response, and it is returned exactly
  when it does so and the user's \<^verbatim>\<open>created_at\<close> is a valid date (on an invalid one line 179
  throws after the event was accepted).
\<close>

theorem updateSettings_empty:
  assumes "find (\<lambda>u. u_id u = userId) (users_tbl w) = Some u"
    and "\<not> db_fault w (step w)"
    and "Mutation_updateSettings w userId [] c = (res, w')"
  shows "upserts (drop (length (trace w)) (trace w')) = [] \<and>
         settings_tbl w' = settings_tbl w \<and>
         trace w' = trace w @
           [DbSelectUser userId, NewDate,
            HttpPost ''http://audit-service.internal/events''
              \<lparr>ev_eventType = ''USER_SETTINGS_UPDATED'', ev_userId = userId,
               ev_actorId = ctx_userId c, ev_at = toISOString w (clock w (Suc (step w))),
               ev_changes = []\<rparr>] \<and>
         ((\<exists>p. res = Inr p) \<longrightarrow> (\<exists>r. audit_service w (step w + 2) = Inr r \<and> r_ok r)) \<and>
         ((\<exists>p. res = Inr p) \<longleftrightarrow>
            (\<exists>r. audit_service w (step w + 2) = Inr r \<and> r_ok r) \<and> u_created_at u \<noteq> Invalid_Date)"
  using assms(3)
proof (cases rule: updateSettings_cases)
  case (no_user e)
  with assms(1,2) show ?thesis by simp
next
  case (loop_failed u' e)
  then show ?thesis by simp
next
  case (notified u' updated w3)
  from notified(1) assms(1) have u': "u' = u"
    by simp
  from notified(3) have eqs: "updated = []" "w3 = emit NewDate (emit (DbSelectUser userId) w)"
    by simp_all
  have tr: "trace w' = trace w @
         [DbSelectUser userId, NewDate,
          HttpPost ''http://audit-service.internal/events''
            \<lparr>ev_eventType = ''USER_SETTINGS_UPDATED'', ev_userId = userId,
             ev_actorId = ctx_userId c, ev_at = toISOString w (clock w (Suc (step w))),
             ev_changes = []\<rparr>]"
    using notified(4) unfolding eqs by (simp add: emit_simps)
  then have "drop (length (trace w)) (trace w') =
         [DbSelectUser userId, NewDate,
          HttpPost ''http://audit-service.internal/events''
            \<lparr>ev_eventType = ''USER_SETTINGS_UPDATED'', ev_userId = userId,
             ev_actorId = ctx_userId c, ev_at = toISOString w (clock w (Suc (step w))),
             ev_changes = []\<rparr>]"
    by simp
  then have ups: "upserts (drop (length (trace w)) (trace w')) = []"
    by simp
  have tbl: "settings_tbl w' = settings_tbl w"
    using notified(4) unfolding eqs by (simp add: emit_simps)
  have st: "step w3 = step w + 2"
    unfolding eqs by (simp add: emit_simps)
  have iff: "(\<exists>p. res = Inr p) \<longleftrightarrow>
      (\<exists>r. audit_service w (step w + 2) = Inr r \<and> r_ok r) \<and> u_created_at u \<noteq> Invalid_Date"
  proof (cases "audit_service w (step w + 2)")
    case (Inl e)
    with notified(5) st show ?thesis by simp
  next
    case (Inr r)
    show ?thesis
    proof (cases "r_ok r")
      case False
      with Inr notified(5) st show ?thesis by simp
    next
      case True
      show ?thesis
      proof (cases "with_createdAt w u")
        case (Inl e)
        then have "u_created_at u = Invalid_Date"
          using with_createdAt_valid [of u w] by auto
        with Inl Inr True notified(5) st u' show ?thesis by simp
      next
        case g: (Inr g)
        from with_createdAt_Inr [OF g] g Inr True notified(5) st u' show ?thesis by simp
      qed
    qed
  qed
  then have "(\<exists>p. res = Inr p) \<longrightarrow> (\<exists>r. audit_service w (step w + 2) = Inr r \<and> r_ok r)"
    by blast
  with ups tbl tr iff show ?thesis by (intro conjI)
qed

theorem updateSettings_empty_witness:
  "find (\<lambda>u. u_id u = ''u1'') (users_tbl world0) =
     Some \<lparr>u_id = ''u1'', u_email = ''u1@example.org'', u_role = MEMBER, u_created_at = Date 5\<rparr> \<and>
   settings_tbl (snd (Mutation_updateSettings world0 ''u1'' [] ctx0)) = settings_tbl world0 \<and>
   trace (snd (Mutation_updateSettings world0 ''u1'' [] ctx0)) =
     [DbSelectUser ''u1'', NewDate,
      HttpPost ''http://audit-service.internal/events''
        \<lparr>ev_eventType = ''USER_SETTINGS_UPDATED'', ev_userId = ''u1'', ev_actorId = Some ''admin'',
         ev_at = ''101'', ev_changes = []\<rparr>] \<and>
   (\<exists>p. fst (Mutation_updateSettings world0 ''u1'' [] ctx0) = Inr p) \<and>
   (\<exists>e. fst (Mutation_updateSettings world_audit_down ''u1'' [] ctx0) = Inl e) \<and>
   (\<exists>e. fst (Mutation_updateSettings world_bad_date ''u1'' [] ctx0) = Inl e)"
proof -
  let ?u = "\<lparr>u_id = ''u1'', u_email = ''u1@example.org'', u_role = MEMBER, u_created_at = Date 5\<rparr>"
  let ?bad = "\<lparr>u_id = ''u1'', u_email = ''u1@example.org'', u_role = MEMBER,
               u_created_at = Invalid_Date\<rparr>"
  let ?run = "Mutation_updateSettings world0 ''u1'' [] ctx0"
  let ?down = "Mutation_updateSettings world_audit_down ''u1'' [] ctx0"
  let ?badrun = "Mutation_updateSettings world_bad_date ''u1'' [] ctx0"
  have h1: "find (\<lambda>u. u_id u = ''u1'') (users_tbl world0) = Some ?u"
    by (simp add: world0_def)
  have h2: "\<not> db_fault world0 (step world0)"
    by (simp add: world0_def)
  have h3: "?run = (fst ?run, snd ?run)"
    by simp
  have g1: "find (\<lambda>u. u_id u = ''u1'') (users_tbl world_audit_down) = Some ?u"
    by (simp add: world_audit_down_def world0_def)
  have g2: "\<not> db_fault world_audit_down (step world_audit_down)"
    by (simp add: world_audit_down_def world0_def)
  have g3: "?down = (fst ?down, snd ?down)"
    by simp
  have b1: "find (\<lambda>u. u_id u = ''u1'') (users_tbl world_bad_date) = Some ?bad"
    by (simp add: world_bad_date_def world0_def)
  have b2: "\<not> db_fault world_bad_date (step world_bad_date)"
    by (simp add: world_bad_date_def world0_def)
  have b3: "?badrun = (fst ?badrun, snd ?badrun)"
    by simp
  have ok: "\<exists>r. audit_service world0 (step world0 + 2) = Inr r \<and> r_ok r"
    by (simp add: world0_def)
  have down: "\<not> (\<exists>r. audit_service world_audit_down (step world_audit_down + 2) = Inr r \<and> r_ok r)"
    by (simp add: world_audit_down_def world0_def)
  have vals: "trace world0 = []" "toISOString world0 (clock world0 (Suc (step world0))) = ''101''"
    "ctx_userId ctx0 = Some ''admin''"
    by (simp_all add: world0_def ctx0_def step_def string_of_nat.simps)
  from updateSettings_empty [OF h1 h2 h3] ok
  have a: "settings_tbl (snd ?run) = settings_tbl world0"
    and b: "trace (snd ?run) =
     [DbSelectUser ''u1'', NewDate,
      HttpPost ''http://audit-service.internal/events''
        \<lparr>ev_eventType = ''USER_SETTINGS_UPDATED'', ev_userId = ''u1'', ev_actorId = Some ''admin'',
         ev_at = ''101'', ev_changes = []\<rparr>]"
    and c: "\<exists>p. fst ?run = Inr p"
    by (simp_all add: vals)
  from updateSettings_empty [OF g1 g2 g3] down
  have "\<not> (\<exists>p. fst ?down = Inr p)"
    by simp
  then have d: "\<exists>e. fst ?down = Inl e"
    by (cases "fst ?down") simp_all
  from updateSettings_empty [OF b1 b2 b3]
  have "\<not> (\<exists>p. fst ?badrun = Inr p)"
    by simp
  then have e: "\<exists>e. fst ?badrun = Inl e"
    by (cases "fst ?badrun") simp_all
  from h1 a b c d e show ?thesis
    by (intro conjI)
qed

lemma Promise_all_Inr: "Promise_all (map Inr xs) = Inr xs"
  by (induction xs) simp_all

lemma select_users_no_fault:
  "\<forall>n < length ids. \<not> db_fault w (step w + n) \<Longrightarrow>
   fst (select_users w ids) = map (\<lambda>i. Inr (find (\<lambda>u. u_id u = i) (users_tbl w))) ids \<and>
   toISOString (snd (select_users w ids)) = toISOString w"
proof (induction ids arbitrary: w)
  case Nil
  then show ?case by simp
next
  case (Cons i ids)
  let ?w1 = "emit (DbSelectUser i) w"
  have "0 < length (i # ids)" by simp
  with Cons.prems have "\<not> db_fault w (step w + 0)" by blast
  then have nf: "\<not> db_fault w (step w)" by simp
  have "\<forall>n < length ids. \<not> db_fault ?w1 (step ?w1 + n)"
  proof (intro allI impI)
    fix n assume "n < length ids"
    then have "Suc n < length (i # ids)" by simp
    with Cons.prems have "\<not> db_fault w (step w + Suc n)" by blast
    then show "\<not> db_fault ?w1 (step ?w1 + n)"
      by (simp add: emit_simps)
  qed
  from Cons.IH [OF this]
  have "fst (select_users ?w1 ids) = map (\<lambda>i. Inr (find (\<lambda>u. u_id u = i) (users_tbl w))) ids"
    and "toISOString (snd (select_users ?w1 ids)) = toISOString w"
    by (simp_all add: emit_simps)
  with nf show ?case
    by (cases "select_users ?w1 ids") (simp add: db_select_user_def)
qed

lemma map_rows_valid:
  assumes "\<forall>u. Some u \<in> set rows \<longrightarrow> u_created_at u \<noteq> Invalid_Date"
  shows "\<exists>gs. map_rows w rows = Inr gs \<and>
              map (map_option Inr) gs = map (map_option (with_createdAt w)) rows"
  using assms
proof (induction rows)
  case Nil
  then show ?case by simp
next
  case (Cons row rows)
  then obtain gs where gs: "map_rows w rows = Inr gs"
    "map (map_option Inr) gs = map (map_option (with_createdAt w)) rows"
    by auto
  show ?case
  proof (cases row)
    case None
    with gs show ?thesis by simp
  next
    case (Some u)
    with Cons.prems have "u_created_at u \<noteq> Invalid_Date"
      by simp
    from with_createdAt_valid [OF this] obtain g where "with_createdAt w u = Inr g"
      by blast
    with Some gs show ?thesis by simp
  qed
qed

text \<open>
  C7. When none of its queries fails and every user found has a valid \<^verbatim>\<open>created_at\<close>,
  \<^verbatim>\<open>users\<close> returns (it does not throw) a list as long as \<open>ids\<close>, whose entry \<open>j\<close> depends on
  \<open>ids ! j\<close> alone: \<open>None\<close> when no user has that id, the user with \<^verbatim>\<open>createdAt\<close> otherwise.
  An id without a user needs no hypothesis.
\<close>

theorem users_in_order:
  assumes "\<forall>n < length ids. \<not> db_fault w (step w + n)"
    and "\<forall>i \<in> set ids. \<forall>u. find (\<lambda>u. u_id u = i) (users_tbl w) = Some u \<longrightarrow>
           u_created_at u \<noteq> Invalid_Date"
  shows "\<exists>rows. fst (Query_users w ids) = Inr rows \<and> length rows = length ids \<and>
           (\<forall>j < length ids.
              map_option Inr (rows ! j) =
              map_option (with_createdAt w) (find (\<lambda>u. u_id u = ids ! j) (users_tbl w)))"
proof -
  let ?row = "\<lambda>i. find (\<lambda>u. u_id u = i) (users_tbl w)"
  obtain results w1 where sel: "select_users w ids = (results, w1)"
    by (cases "select_users w ids")
  from select_users_no_fault [OF assms(1)] sel
  have results: "results = map (\<lambda>i. Inr (?row i)) ids" and same: "toISOString w1 = toISOString w"
    by simp_all
  have "results = map Inr (map ?row ids)"
    unfolding results by simp
  then have all: "Promise_all results = Inr (map ?row ids)"
    by (simp only: Promise_all_Inr)
  have "\<forall>u. Some u \<in> set (map ?row ids) \<longrightarrow> u_created_at u \<noteq> Invalid_Date"
    using assms(2) by auto
  from map_rows_valid [OF this, of w1] obtain gs where gs:
    "map_rows w1 (map ?row ids) = Inr gs"
    "map (map_option Inr) gs = map (map_option (with_createdAt w1)) (map ?row ids)"
    by blast
  have frame: "with_createdAt w1 = with_createdAt w"
    using with_createdAt_frame [OF same] by (intro ext)
  from gs(2) have maps: "map (map_option Inr) gs = map (\<lambda>i. map_option (with_createdAt w) (?row i)) ids"
    unfolding frame by (simp add: comp_def)
  from arg_cong [OF maps, of length] have len: "length gs = length ids"
    by simp
  have nth: "map_option Inr (gs ! j) = map_option (with_createdAt w) (?row (ids ! j))"
    if "j < length ids" for j
    using arg_cong [OF maps, of "\<lambda>xs. xs ! j"] that len by simp
  from sel all gs(1) have "fst (Query_users w ids) = Inr gs"
    by (simp add: Query_users_def)
  with len nth show ?thesis by blast
qed

theorem users_in_order_witness:
  "\<exists>rows. fst (Query_users world0 [''u1'', ''ghost'']) = Inr rows \<and> length rows = 2 \<and>
     rows ! 0 = Some \<lparr>u_id = ''u1'', u_email = ''u1@example.org'', u_role = MEMBER,
                      u_created_at = Date 5, createdAt = ''5''\<rparr> \<and>
     rows ! 1 = None"
proof -
  let ?g = "\<lparr>u_id = ''u1'', u_email = ''u1@example.org'', u_role = MEMBER,
             u_created_at = Date 5, createdAt = ''5''\<rparr>"
  have h1: "\<forall>n < length [''u1'', ''ghost'']. \<not> db_fault world0 (step world0 + n)"
    by (simp add: world0_def)
  have h2: "\<forall>i \<in> set [''u1'', ''ghost''].
      \<forall>u. find (\<lambda>u. u_id u = i) (users_tbl world0) = Some u \<longrightarrow> u_created_at u \<noteq> Invalid_Date"
    by (auto simp: world0_def)
  from users_in_order [OF h1 h2] obtain rows where rows:
    "fst (Query_users world0 [''u1'', ''ghost'']) = Inr rows" "length rows = 2"
    "\<forall>j < 2. map_option Inr (rows ! j) =
       map_option (with_createdAt world0) (find (\<lambda>u. u_id u = [''u1'', ''ghost''] ! j) (users_tbl world0))"
    by auto
  from rows(3) have "map_option Inr (rows ! 0) =
       map_option (with_createdAt world0) (find (\<lambda>u. u_id u = ''u1'') (users_tbl world0))"
    by (metis nth_Cons_0 zero_less_numeral)
  then have "map_option Inr (rows ! 0) = Some (Inr ?g)"
    by (simp add: world0_def with_createdAt_def Date_toISOString_def string_of_nat.simps)
  then have r0: "rows ! 0 = Some ?g"
    by (cases "rows ! 0") simp_all
  from rows(3) have "map_option Inr (rows ! 1) =
       map_option (with_createdAt world0) (find (\<lambda>u. u_id u = ''ghost'') (users_tbl world0))"
    by (metis nth_Cons_0 nth_Cons_Suc One_nat_def one_less_numeral_iff semiring_norm(76))
  then have r1: "rows ! 1 = None"
    by (simp add: world0_def)
  from rows(1,2) r0 r1 show ?thesis
    by blast
qed

lemma users_invalid_created_at: "fst (Query_users world_bad_date [''u1'']) = Inl RangeError"
  by (simp add: Query_users_def db_select_user_def emit_def step_def with_createdAt_def
      Date_toISOString_def world_bad_date_def world0_def)

text \<open>
  C2. A row of \<open>(u1, theme)\<close> last updated by \<open>u1\<close> exists, and the caller \<open>admin\<close> sets
  \<open>theme\<close> to \<open>dark\<close>. Afterwards there is still one row for that key, with the new value
  and the new timestamp, and its \<^verbatim>\<open>updated_by\<close> is still \<open>u1\<close>: \<^verbatim>\<open>doUpdateSet\<close> of line
  139 has no \<^verbatim>\<open>updated_by\<close>, which only the insert of line 136 writes.
\<close>

theorem updateSettings_conflict_keeps_updated_by:
  "settings_tbl (snd (Mutation_updateSettings world0 ''u1'' [(''theme'', ''dark'')] ctx0)) =
     [\<lparr>s_id = ''s1'', s_user_id = ''u1'', s_key = ''theme'', s_value = ''dark'',
       s_updated_at = Date 101, s_updated_by = Some ''u1''\<rparr>] \<and>
   ctx_userId ctx0 = Some ''admin''"
  by (simp add: run_defs world0_def ctx0_def)

lemma insert_onConflict_unique:
  assumes "distinct (map (\<lambda>r. (s_user_id r, s_key r)) tbl)"
  shows "distinct (map (\<lambda>r. (s_user_id r, s_key r)) (fst (insert_onConflict tbl new)))"
proof (cases "filter (conflicts new) tbl = []")
  case True
  then have "\<forall>r \<in> set tbl. \<not> conflicts new r"
    by (simp add: filter_empty_conv)
  then have "(s_user_id new, s_key new) \<notin> (\<lambda>r. (s_user_id r, s_key r)) ` set tbl"
    by (auto simp: conflicts_def)
  with True assms show ?thesis
    by (simp add: insert_onConflict_def)
next
  case False
  have "map (\<lambda>r. (s_user_id r, s_key r)) (map (doUpdateSet new) tbl) =
        map (\<lambda>r. (s_user_id r, s_key r)) tbl"
    by (simp add: doUpdateSet_def)
  moreover have "fst (insert_onConflict tbl new) = map (doUpdateSet new) tbl"
    using False by (simp add: insert_onConflict_def)
  ultimately show ?thesis
    using assms by (simp only:)
qed

text \<open>
  C8. The remote validation returns, without throwing, a result with an \<^verbatim>\<open>error\<close>, for a
  value that is not empty. Then \<^verbatim>\<open>schemaValidator\<close> fails, and what it throws is the generic
  \<^verbatim>\<open>Error("Invalid schema")\<close>: \<^verbatim>\<open>throw error\<close> stands inside the \<^verbatim>\<open>try\<close> whose \<^verbatim>\<open>catch\<close>
  replaces whatever was thrown, so the error of the response is not what the caller gets.
\<close>

theorem schemaValidator_collapses_error:
  assumes "val \<noteq> []"
    and "validator val = Inr res"
    and "qr_error res = Some e"
  shows "schemaValidator validator val = Inl (Error ''Invalid schema'')"
  using assms by (simp add: schemaValidator_def)

theorem schemaValidator_collapses_error_witness:
  "''id INT,'' \<noteq> [] \<and>
   validator_rejecting ''id INT,'' = Inr \<lparr>qr_error = Some (ApolloError ''mismatched input'')\<rparr> \<and>
   schemaValidator validator_rejecting ''id INT,'' = Inl (Error ''Invalid schema'')"
proof -
  let ?res = "\<lparr>qr_error = Some (ApolloError ''mismatched input'')\<rparr>"
  have h1: "''id INT,'' \<noteq> []"
    by simp
  have h2: "validator_rejecting ''id INT,'' = Inr ?res"
    by (simp add: validator_rejecting_def)
  have h3: "qr_error ?res = Some (ApolloError ''mismatched input'')"
    by simp
  from schemaValidator_collapses_error [of "''id INT,''" validator_rejecting ?res, OF h1 h2 h3] h1 h2
  show ?thesis
    by (intro conjI)
qed

text \<open>
  The claim as the spec words it, that the error of the response is what is surfaced,
  fails at that input.
\<close>

theorem schemaValidator_error_not_surfaced:
  "''id INT,'' \<noteq> [] \<and>
   validator_rejecting ''id INT,'' = Inr \<lparr>qr_error = Some (ApolloError ''mismatched input'')\<rparr> \<and>
   schemaValidator validator_rejecting ''id INT,'' \<noteq> Inl (ApolloError ''mismatched input'')"
  by (simp add: schemaValidator_def validator_rejecting_def)

end
